theory Spec2Isabelle
  imports Main "HOL-Library.Sublist"
begin

section \<open>The toast queue controller of \<open>overlayToaster.tsx\<close>\<close>

text \<open>
  The embedding follows class \<open>OverlayToaster\<close>
  (\<open>packages/core/src/components/toast/overlayToaster.tsx\<close>).

  \<^item> \<open>this.state.toasts\<close> (the visible collection, newest first) and
    \<open>this.queue.toasts\<close> (the pending queue) are lists of \<open>ToastOptions\<close>.
  \<^item> \<open>setState\<close> applies its updater at once, in call order, in the
    definitions of the operations and of \<open>run\<close>; the definitions with suffix
    \<open>B\<close> queue the updates until a flush, as React does inside a batch. The
    derived \<open>toastRefs\<close> table is a function of \<open>toasts\<close> and is left out.
  \<^item> A dismissal callback is an opaque identity (a number); calling it is
    recorded in \<open>trace\<close>, and a callback never re-enters the controller.
  \<^item> \<open>maxToasts\<close> is a JavaScript number; it is modelled as an integer.
  \<^item> \<open>toastId\<close> is a JavaScript number that starts at 0 and is only ever
    incremented, so it is always a natural number; the increment is exact
    below \<open>2^53\<close> and leaves the value unchanged from there on (see \<open>incr\<close>).
\<close>

subsection \<open>Data\<close>

record ToastProps =
  message :: string
  onDismiss :: "nat option"

record ToastOptions = ToastProps +
  key :: string

datatype error = TOASTER_MAX_TOASTS_INVALID | TypeError

datatype effect =
    OnDismiss nat bool
  | TimerSet nat
  | TimerCancelled nat

record OverlayToaster =
  maxToasts :: "int option"
  toasts :: "ToastOptions list"
  queue_cancel :: "nat option"
  queue_isRunning :: bool
  queue_toasts :: "ToastOptions list"
  toastId :: nat
  timeouts :: "nat list"
  nextHandle :: nat
  trace :: "effect list"

text \<open>
  Field \<open>timeouts\<close> holds the handles of the timeouts that are scheduled and
  have neither fired nor been cancelled, \<open>nextHandle\<close> the next handle the host
  will hand out, and \<open>trace\<close> the observable effects in the order they happen.
\<close>

definition initial :: "int option \<Rightarrow> OverlayToaster" where
  "initial mx =
     \<lparr> maxToasts = mx, toasts = [], queue_cancel = None, queue_isRunning = False,
       queue_toasts = [], toastId = 0, timeouts = [], nextHandle = 0, trace = [] \<rparr>"

definition validateProps :: "int option \<Rightarrow> error + unit" where
  "validateProps mx =
     (case mx of
        None \<Rightarrow> Inr ()
      | Some m \<Rightarrow> if m < 1 then Inl TOASTER_MAX_TOASTS_INVALID else Inr ())"

subsection \<open>Timer primitives\<close>

text \<open>
  Modelled from the spec: \<open>AbstractPureComponent.setTimeout\<close> is not among the
  sources. The spec describes the timer primitives as schedule-after-delay
  returning a cancel handle; scheduling adds a fresh handle to \<open>timeouts\<close>,
  cancelling removes it.
\<close>

definition setTimeout :: "OverlayToaster \<Rightarrow> nat \<times> OverlayToaster" where
  "setTimeout s =
     (nextHandle s,
      s\<lparr> timeouts := timeouts s @ [nextHandle s],
         nextHandle := Suc (nextHandle s),
         trace := trace s @ [TimerSet (nextHandle s)] \<rparr>)"

definition clearTimeout :: "nat \<Rightarrow> OverlayToaster \<Rightarrow> OverlayToaster" where
  "clearTimeout h s =
     s\<lparr> timeouts := removeAll h (timeouts s),
        trace := trace s @ [TimerCancelled h] \<rparr>"

subsection \<open>Identifiers\<close>

text \<open>
  The template \<open>`toast-${this.toastId++}`\<close> renders the counter in decimal
  without leading zeros.
\<close>

definition digit_char :: "nat \<Rightarrow> char" where
  "digit_char d = char_of (48 + d)"

fun digits :: "nat \<Rightarrow> string" where
  "digits n = (if n < 10 then [digit_char n] else digits (n div 10) @ [digit_char (n mod 10)])"

declare digits.simps [simp del]

definition toastKey :: "nat \<Rightarrow> string" where
  "toastKey n = ''toast-'' @ digits n"

text \<open>
  The postfix increment \<open>this.toastId++\<close> on a double: \<open>n + 1\<close> is exact up to
  \<open>2^53 = 9007199254740992\<close>; \<open>2^53 + 1\<close> is not representable and rounds back
  to \<open>2^53\<close>, so from there the counter no longer advances.
\<close>

definition incr :: "nat \<Rightarrow> nat" where
  "incr n = (if int n < 9007199254740992 then Suc n else n)"

text \<open>The object spread \<open>{ ...props, key }\<close>.\<close>

definition withKey :: "ToastProps \<Rightarrow> string \<Rightarrow> ToastOptions" where
  "withKey props k = \<lparr> message = message props, onDismiss = onDismiss props, key = k \<rparr>"

text \<open>
  The default value of parameter \<open>key\<close> is evaluated, and the counter advanced,
  only when the caller passes no key.
\<close>

definition createToastOptions ::
  "ToastProps \<Rightarrow> string option \<Rightarrow> OverlayToaster \<Rightarrow> ToastOptions \<times> OverlayToaster" where
  "createToastOptions props k s =
     (case k of
        Some k' \<Rightarrow> (withKey props k', s)
      | None \<Rightarrow> (withKey props (toastKey (toastId s)), s\<lparr> toastId := incr (toastId s) \<rparr>))"

subsection \<open>Operations\<close>

definition updateToastsInState ::
  "(ToastOptions list \<Rightarrow> ToastOptions list) \<Rightarrow> OverlayToaster \<Rightarrow> OverlayToaster" where
  "updateToastsInState getNewToasts s = s\<lparr> toasts := getNewToasts (toasts s) \<rparr>"

definition dismissCalls :: "string \<Rightarrow> bool \<Rightarrow> ToastOptions list \<Rightarrow> effect list" where
  "dismissCalls k timeoutExpired ts =
     List.map_filter
       (\<lambda>t. if key t = k then map_option (\<lambda>cb. OnDismiss cb timeoutExpired) (onDismiss t)
            else None) ts"

definition dismiss :: "string \<Rightarrow> bool \<Rightarrow> OverlayToaster \<Rightarrow> OverlayToaster" where
  "dismiss k timeoutExpired s =
     s\<lparr> toasts := filter (\<lambda>t. key t \<noteq> k) (toasts s),
        trace := trace s @ dismissCalls k timeoutExpired (toasts s) \<rparr>"

definition dismissIfAtLimit :: "OverlayToaster \<Rightarrow> error + OverlayToaster" where
  "dismissIfAtLimit s =
     (if Some (int (length (toasts s))) = maxToasts s then
        (case toasts s of
           [] \<Rightarrow> Inl TypeError
         | _ # _ \<Rightarrow> Inr (dismiss (key (last (toasts s))) False s))
      else Inr s)"

definition truthy :: "int option \<Rightarrow> bool" where
  "truthy mx = (case mx of None \<Rightarrow> False | Some m \<Rightarrow> m \<noteq> 0)"

definition immediatelyShowToast :: "ToastOptions \<Rightarrow> OverlayToaster \<Rightarrow> error + OverlayToaster" where
  "immediatelyShowToast options s =
     (case (if truthy (maxToasts s) then dismissIfAtLimit s else Inr s) of
        Inl e \<Rightarrow> Inl e
      | Inr s1 \<Rightarrow> Inr (updateToastsInState (\<lambda>ts. options # ts) s1))"

definition startQueueTimeout :: "OverlayToaster \<Rightarrow> OverlayToaster" where
  "startQueueTimeout s =
     (let s1 = s\<lparr> queue_isRunning := True \<rparr>;
          (h, s2) = setTimeout s1
      in s2\<lparr> queue_cancel := Some h \<rparr>)"

definition handleQueueTimeout :: "OverlayToaster \<Rightarrow> error + OverlayToaster" where
  "handleQueueTimeout s =
     (case queue_toasts s of
        [] \<Rightarrow> Inr (s\<lparr> queue_isRunning := False \<rparr>)
      | nextToast # rest \<Rightarrow>
          (case immediatelyShowToast nextToast (s\<lparr> queue_toasts := rest \<rparr>) of
             Inl e \<Rightarrow> Inl e
           | Inr s1 \<Rightarrow> Inr (startQueueTimeout s1)))"

definition maybeUpdateExistingToast ::
  "ToastOptions \<Rightarrow> string option \<Rightarrow> OverlayToaster \<Rightarrow> bool \<times> OverlayToaster" where
  "maybeUpdateExistingToast options k s =
     (case k of
        None \<Rightarrow> (False, s)
      | Some k' \<Rightarrow>
          if list_ex (\<lambda>t. key t = k') (queue_toasts s) then
            (True, s\<lparr> queue_toasts := map (\<lambda>t. if key t = k' then options else t) (queue_toasts s) \<rparr>)
          else if list_ex (\<lambda>t. key t = k') (toasts s) then
            (True, updateToastsInState (map (\<lambda>t. if key t = k' then options else t)) s)
          else (False, s))"

definition "show" ::
  "ToastProps \<Rightarrow> string option \<Rightarrow> OverlayToaster \<Rightarrow> error + (string \<times> OverlayToaster)" where
  "show props k s =
     (let (options, s0) = createToastOptions props k s;
          (wasExistingToastUpdated, s1) = maybeUpdateExistingToast options k s0
      in if wasExistingToastUpdated then Inr (key options, s1)
         else if queue_isRunning s1 then
           Inr (key options, s1\<lparr> queue_toasts := queue_toasts s1 @ [options] \<rparr>)
         else
           (case immediatelyShowToast options s1 of
              Inl e \<Rightarrow> Inl e
            | Inr s2 \<Rightarrow> Inr (key options, startQueueTimeout s2)))"

definition clearCalls :: "ToastOptions list \<Rightarrow> effect list" where
  "clearCalls ts = List.map_filter (\<lambda>t. map_option (\<lambda>cb. OnDismiss cb False) (onDismiss t)) ts"

definition clear :: "OverlayToaster \<Rightarrow> OverlayToaster" where
  "clear s =
     (let s1 = (case queue_cancel s of None \<Rightarrow> s | Some h \<Rightarrow> clearTimeout h s);
          s2 = s1\<lparr> queue_cancel := None, queue_isRunning := False, queue_toasts := [] \<rparr>;
          s3 = s2\<lparr> trace := trace s2 @ clearCalls (toasts s2) \<rparr>
      in s3\<lparr> toasts := [] \<rparr>)"

definition getToasts :: "OverlayToaster \<Rightarrow> ToastOptions list" where
  "getToasts s = toasts s"

subsection \<open>Events and runs\<close>

text \<open>
  The controller is driven by calls of its public methods and by the host firing
  a scheduled timeout. \<open>Fire h\<close> runs \<open>handleQueueTimeout\<close> when the timeout
  with handle \<open>h\<close> is still scheduled; a timeout that is not scheduled cannot
  fire, and the event leaves the controller as it is.
\<close>

datatype event =
    Show ToastProps "string option"
  | Dismiss string bool
  | Clear
  | Fire nat

definition fire :: "nat \<Rightarrow> OverlayToaster \<Rightarrow> error + OverlayToaster" where
  "fire h s =
     (if h \<in> set (timeouts s) then handleQueueTimeout (s\<lparr> timeouts := removeAll h (timeouts s) \<rparr>)
      else Inr s)"

fun step :: "event \<Rightarrow> OverlayToaster \<Rightarrow> error + OverlayToaster" where
  "step (Show props k) s = map_sum id snd (show props k s)"
| "step (Dismiss k timeoutExpired) s = Inr (dismiss k timeoutExpired s)"
| "step Clear s = Inr (clear s)"
| "step (Fire h) s = fire h s"

fun run :: "event list \<Rightarrow> OverlayToaster \<Rightarrow> error + OverlayToaster" where
  "run [] s = Inr s"
| "run (e # es) s = (case step e s of Inl err \<Rightarrow> Inl err | Inr s' \<Rightarrow> run es s')"

text \<open>
  Modelled from the spec: the constructor that calls \<open>validateProps\<close> is not
  among the sources. The spec has a \<open>maxToasts\<close> below 1 fail at construction,
  before any toast is processed; otherwise the controller starts in the initial
  state of the field initialisers.
\<close>

definition mount :: "int option \<Rightarrow> error + OverlayToaster" where
  "mount mx = (case validateProps mx of Inl e \<Rightarrow> Inl e | Inr _ \<Rightarrow> Inr (initial mx))"

text \<open>Firing whichever timeout is scheduled, \<open>n\<close> times in a row.\<close>

definition fireArmed :: "OverlayToaster \<Rightarrow> error + OverlayToaster" where
  "fireArmed s = (case timeouts s of [] \<Rightarrow> Inr s | h # _ \<Rightarrow> fire h s)"

fun fireN :: "nat \<Rightarrow> OverlayToaster \<Rightarrow> error + OverlayToaster" where
  "fireN 0 s = Inr s"
| "fireN (Suc n) s = (case fireArmed s of Inl e \<Rightarrow> Inl e | Inr s' \<Rightarrow> fireN n s')"

subsection \<open>Reading an identifier back\<close>

definition digit_val :: "char \<Rightarrow> nat" where
  "digit_val c = of_char c - 48"

definition parseNat :: "string \<Rightarrow> nat" where
  "parseNat cs = foldl (\<lambda>a c. 10 * a + digit_val c) 0 cs"

text \<open>
  \<open>collides tid k\<close>: the key \<open>k\<close> is an identifier the counter has not issued
  yet, that is \<open>toast-n\<close> for some \<open>n\<close> from \<open>tid\<close> on.
\<close>

definition collides :: "nat \<Rightarrow> string \<Rightarrow> bool" where
  "collides tid k = (k = toastKey (parseNat (drop 6 k)) \<and> tid \<le> parseNat (drop 6 k))"

subsection \<open>The capacity check\<close>

text \<open>
  \<open>atLimit\<close> is the conjunction of the two tests that guard the eviction, the
  truthiness of \<open>maxToasts\<close> in \<open>immediatelyShowToast\<close> and the comparison in
  \<open>dismissIfAtLimit\<close>; \<open>evict\<close> is what the two do together when the read of
  the last element succeeds (lemma \<open>immediatelyShowToast_Inr\<close> below shows that
  it always does).
\<close>

definition atLimit :: "OverlayToaster \<Rightarrow> bool" where
  "atLimit s = (truthy (maxToasts s) \<and> Some (int (length (toasts s))) = maxToasts s)"

definition evict :: "OverlayToaster \<Rightarrow> OverlayToaster" where
  "evict s = (if atLimit s then dismiss (key (last (toasts s))) False s else s)"

subsection \<open>Derived forms used in the proofs\<close>

text \<open>
  Names for parts of \<open>show\<close>: the identifier \<open>createToastOptions\<close> resolves
  and the state it leaves, the map of \<open>maybeUpdateExistingToast\<close>, and the
  condition under which that function returns \<open>false\<close>. Lemma \<open>show_cases\<close>
  below ties them to \<open>show\<close>.
\<close>

definition resolve :: "string option \<Rightarrow> OverlayToaster \<Rightarrow> string" where
  "resolve k s = (case k of Some k' \<Rightarrow> k' | None \<Rightarrow> toastKey (toastId s))"

definition bump :: "string option \<Rightarrow> OverlayToaster \<Rightarrow> OverlayToaster" where
  "bump k s = (case k of Some _ \<Rightarrow> s | None \<Rightarrow> s\<lparr> toastId := incr (toastId s) \<rparr>)"

definition replaceKey :: "string \<Rightarrow> ToastOptions \<Rightarrow> ToastOptions list \<Rightarrow> ToastOptions list" where
  "replaceKey k opt ts = map (\<lambda>t. if key t = k then opt else t) ts"

definition isNew :: "string option \<Rightarrow> OverlayToaster \<Rightarrow> bool" where
  "isNew k s = (case k of None \<Rightarrow> True
     | Some k' \<Rightarrow> \<not> list_ex (\<lambda>t. key t = k') (queue_toasts s) \<and> \<not> list_ex (\<lambda>t. key t = k') (toasts s))"

definition bounded :: "int \<Rightarrow> OverlayToaster \<Rightarrow> bool" where
  "bounded m s = (maxToasts s = Some m \<and> int (length (toasts s)) \<le> m)"

subsection \<open>State updates that wait for a flush\<close>

text \<open>
  The definitions above apply every \<open>setState\<close> at once. Inside a React batch
  (an event handler, or any call under a React 18 root) \<open>setState\<close> only
  queues its update, and \<open>this.state.toasts\<close> keeps its old value until the
  batch is flushed; \<open>clear\<close>, \<open>maybeUpdateExistingToast\<close> and
  \<open>dismissIfAtLimit\<close> read it directly. The definitions of this subsection
  follow the same source statements with the updates queued: \<open>inst\<close> holds
  the instance fields and the committed \<open>state.toasts\<close>, \<open>queued\<close> the
  updates not yet applied, in call order. The four updates are the four
  arguments the source passes to \<open>setState\<close>: the prepend of
  \<open>immediatelyShowToast\<close>, the map of \<open>maybeUpdateExistingToast\<close>, the filter
  of \<open>dismiss\<close> (which calls \<open>onDismiss\<close> when it runs), and the empty list of
  \<open>clear\<close>.
\<close>

datatype update =
    Prepend ToastOptions
  | Replace string ToastOptions
  | Filter string bool
  | Reset

fun applyUpdate :: "update \<Rightarrow> OverlayToaster \<Rightarrow> OverlayToaster" where
  "applyUpdate (Prepend options) s = updateToastsInState (\<lambda>ts. options # ts) s"
| "applyUpdate (Replace k options) s =
     updateToastsInState (map (\<lambda>t. if key t = k then options else t)) s"
| "applyUpdate (Filter k timeoutExpired) s = dismiss k timeoutExpired s"
| "applyUpdate Reset s = s\<lparr> toasts := [] \<rparr>"

record Batched =
  inst :: OverlayToaster
  queued :: "update list"

definition setState :: "update \<Rightarrow> Batched \<Rightarrow> Batched" where
  "setState u b = b\<lparr> queued := queued b @ [u] \<rparr>"

definition flush :: "Batched \<Rightarrow> Batched" where
  "flush b = \<lparr> inst = foldl (\<lambda>s u. applyUpdate u s) (inst b) (queued b), queued = [] \<rparr>"

definition onInst :: "(OverlayToaster \<Rightarrow> OverlayToaster) \<Rightarrow> Batched \<Rightarrow> Batched" where
  "onInst f b = b\<lparr> inst := f (inst b) \<rparr>"

definition dismissB :: "string \<Rightarrow> bool \<Rightarrow> Batched \<Rightarrow> Batched" where
  "dismissB k timeoutExpired b = setState (Filter k timeoutExpired) b"

definition dismissIfAtLimitB :: "Batched \<Rightarrow> error + Batched" where
  "dismissIfAtLimitB b =
     (if Some (int (length (toasts (inst b)))) = maxToasts (inst b) then
        (case toasts (inst b) of
           [] \<Rightarrow> Inl TypeError
         | _ # _ \<Rightarrow> Inr (dismissB (key (last (toasts (inst b)))) False b))
      else Inr b)"

definition immediatelyShowToastB :: "ToastOptions \<Rightarrow> Batched \<Rightarrow> error + Batched" where
  "immediatelyShowToastB options b =
     (case (if truthy (maxToasts (inst b)) then dismissIfAtLimitB b else Inr b) of
        Inl e \<Rightarrow> Inl e
      | Inr b1 \<Rightarrow> Inr (setState (Prepend options) b1))"

definition handleQueueTimeoutB :: "Batched \<Rightarrow> error + Batched" where
  "handleQueueTimeoutB b =
     (case queue_toasts (inst b) of
        [] \<Rightarrow> Inr (onInst (\<lambda>s. s\<lparr> queue_isRunning := False \<rparr>) b)
      | nextToast # rest \<Rightarrow>
          (case immediatelyShowToastB nextToast (onInst (\<lambda>s. s\<lparr> queue_toasts := rest \<rparr>) b) of
             Inl e \<Rightarrow> Inl e
           | Inr b1 \<Rightarrow> Inr (onInst startQueueTimeout b1)))"

definition maybeUpdateExistingToastB ::
  "ToastOptions \<Rightarrow> string option \<Rightarrow> Batched \<Rightarrow> bool \<times> Batched" where
  "maybeUpdateExistingToastB options k b =
     (case k of
        None \<Rightarrow> (False, b)
      | Some k' \<Rightarrow>
          if list_ex (\<lambda>t. key t = k') (queue_toasts (inst b)) then
            (True, onInst (\<lambda>s. s\<lparr> queue_toasts :=
                      map (\<lambda>t. if key t = k' then options else t) (queue_toasts s) \<rparr>) b)
          else if list_ex (\<lambda>t. key t = k') (toasts (inst b)) then
            (True, setState (Replace k' options) b)
          else (False, b))"

definition showB ::
  "ToastProps \<Rightarrow> string option \<Rightarrow> Batched \<Rightarrow> error + (string \<times> Batched)" where
  "showB props k b =
     (let (options, s0) = createToastOptions props k (inst b);
          (wasExistingToastUpdated, b1) = maybeUpdateExistingToastB options k (b\<lparr> inst := s0 \<rparr>)
      in if wasExistingToastUpdated then Inr (key options, b1)
         else if queue_isRunning (inst b1) then
           Inr (key options, onInst (\<lambda>s. s\<lparr> queue_toasts := queue_toasts s @ [options] \<rparr>) b1)
         else
           (case immediatelyShowToastB options b1 of
              Inl e \<Rightarrow> Inl e
            | Inr b2 \<Rightarrow> Inr (key options, onInst startQueueTimeout b2)))"

definition clearB :: "Batched \<Rightarrow> Batched" where
  "clearB b =
     (let b1 = onInst (\<lambda>s. case queue_cancel s of None \<Rightarrow> s | Some h \<Rightarrow> clearTimeout h s) b;
          b2 = onInst (\<lambda>s. s\<lparr> queue_cancel := None, queue_isRunning := False,
                               queue_toasts := [] \<rparr>) b1;
          b3 = onInst (\<lambda>s. s\<lparr> trace := trace s @ clearCalls (toasts s) \<rparr>) b2
      in setState Reset b3)"

definition fireB :: "nat \<Rightarrow> Batched \<Rightarrow> error + Batched" where
  "fireB h b =
     (if h \<in> set (timeouts (inst b)) then
        handleQueueTimeoutB (onInst (\<lambda>s. s\<lparr> timeouts := removeAll h (timeouts s) \<rparr>) b)
      else Inr b)"

text \<open>A batch is a sequence of calls; \<open>Flush\<close> ends it and applies the queued updates.\<close>

datatype bevent = Do event | Flush

fun stepB :: "bevent \<Rightarrow> Batched \<Rightarrow> error + Batched" where
  "stepB (Do (Show props k)) b = map_sum id snd (showB props k b)"
| "stepB (Do (Dismiss k timeoutExpired)) b = Inr (dismissB k timeoutExpired b)"
| "stepB (Do Clear) b = Inr (clearB b)"
| "stepB (Do (Fire h)) b = fireB h b"
| "stepB Flush b = Inr (flush b)"

fun runB :: "bevent list \<Rightarrow> Batched \<Rightarrow> error + Batched" where
  "runB [] b = Inr b"
| "runB (e # es) b = (case stepB e b of Inl err \<Rightarrow> Inl err | Inr b' \<Rightarrow> runB es b')"

text \<open>
  \<open>settled s\<close> is the controller with nothing queued. \<open>callFlushed\<close> is one
  call in a batch of its own, \<open>runFlushed\<close> a sequence of such calls: each
  call's updates are applied before the next call starts.
\<close>

definition settled :: "OverlayToaster \<Rightarrow> Batched" where
  "settled s = \<lparr> inst = s, queued = [] \<rparr>"

definition callFlushed :: "event \<Rightarrow> OverlayToaster \<Rightarrow> error + OverlayToaster" where
  "callFlushed e s = map_sum id inst (runB [Do e, Flush] (settled s))"

fun runFlushed :: "event list \<Rightarrow> OverlayToaster \<Rightarrow> error + OverlayToaster" where
  "runFlushed [] s = Inr s"
| "runFlushed (e # es) s =
     (case callFlushed e s of Inl err \<Rightarrow> Inl err | Inr s' \<Rightarrow> runFlushed es s')"

subsection \<open>Invariants\<close>

text \<open>
  \<open>sched_ok\<close>: while the scheduler is running exactly one timeout is scheduled,
  the one whose handle \<open>queue.cancel\<close> holds; while it is idle none is, and the
  queue is empty.
\<close>

definition sched_ok :: "OverlayToaster \<Rightarrow> bool" where
  "sched_ok s =
     (if queue_isRunning s then (case queue_cancel s of Some h \<Rightarrow> timeouts s = [h] | None \<Rightarrow> False)
      else timeouts s = [] \<and> queue_toasts s = [])"

text \<open>
  \<open>uniq\<close>: the keys of the two collections are pairwise different, and none
  of them is an identifier the counter will issue later. \<open>keys_ok es s\<close>: along
  the run of \<open>es\<close> from \<open>s\<close>, each call flushed before the next, no call of
  \<open>show\<close> passes such an identifier as its key, and every call of \<open>show\<close>
  without a key finds the counter below \<open>2^53\<close>, where it still advances.
\<close>

definition keys :: "OverlayToaster \<Rightarrow> string list" where
  "keys s = map key (queue_toasts s @ toasts s)"

definition uniq :: "OverlayToaster \<Rightarrow> bool" where
  "uniq s = (distinct (keys s) \<and> list_all (\<lambda>k. \<not> collides (toastId s) k) (keys s))"

fun event_ok :: "event \<Rightarrow> OverlayToaster \<Rightarrow> bool" where
  "event_ok (Show props (Some k)) s = (\<not> collides (toastId s) k)"
| "event_ok (Show props None) s = (int (toastId s) < 9007199254740992)"
| "event_ok _ s = True"

fun keys_ok :: "event list \<Rightarrow> OverlayToaster \<Rightarrow> bool" where
  "keys_ok [] s = True"
| "keys_ok (e # es) s =
     (event_ok e s \<and> (case callFlushed e s of Inl _ \<Rightarrow> True | Inr s' \<Rightarrow> keys_ok es s'))"

subsection \<open>Example requests\<close>

definition propsA :: ToastProps where
  "propsA = \<lparr> message = ''A'', onDismiss = Some 1 \<rparr>"

definition propsB :: ToastProps where
  "propsB = \<lparr> message = ''B'', onDismiss = Some 2 \<rparr>"

definition propsY :: ToastProps where
  "propsY = \<lparr> message = ''Y'', onDismiss = Some 3 \<rparr>"

text \<open>
  The state after \<open>show(A)\<close> and \<open>show(B)\<close> on a controller with
  \<open>maxToasts = 1\<close>: A is visible, B is queued, the timer is scheduled.
\<close>

definition example_full :: OverlayToaster where
  "example_full =
     \<lparr> maxToasts = Some 1, toasts = [withKey propsA ''toast-0''], queue_cancel = Some 0,
       queue_isRunning = True, queue_toasts = [withKey propsB ''toast-1''], toastId = 2,
       timeouts = [0], nextHandle = 1, trace = [TimerSet 0] \<rparr>"


definition example_two_queued :: OverlayToaster where
  "example_two_queued =
     \<lparr> maxToasts = None, toasts = [withKey propsA ''toast-0''], queue_cancel = Some 0,
       queue_isRunning = True,
       queue_toasts = [withKey propsB ''toast-1'', withKey propsY ''toast-2''], toastId = 3,
       timeouts = [0], nextHandle = 1, trace = [TimerSet 0] \<rparr>"

section \<open>Basic facts\<close>

lemma digit_val_digit_char: "d < 10 \<Longrightarrow> digit_val (digit_char d) = d"
  by (simp add: digit_val_def digit_char_def)

lemma parseNat_snoc: "parseNat (cs @ [c]) = 10 * parseNat cs + digit_val c"
  by (simp add: parseNat_def)

lemma parseNat_digits: "parseNat (digits n) = n"
proof (induction n rule: digits.induct)
  case (1 n)
  show ?case
  proof (cases "n < 10")
    case True
    then show ?thesis
      by (simp add: digits.simps [of n] parseNat_def digit_val_digit_char)
  next
    case False
    with 1 show ?thesis
      by (simp add: digits.simps [of n] parseNat_snoc digit_val_digit_char)
  qed
qed

lemma toastKey_inj: "toastKey m = toastKey n \<longleftrightarrow> m = n"
proof
  assume "toastKey m = toastKey n"
  then have "digits m = digits n" by (simp add: toastKey_def)
  then have "parseNat (digits m) = parseNat (digits n)" by simp
  then show "m = n" by (simp add: parseNat_digits)
qed simp

lemma collides_iff: "collides tid k \<longleftrightarrow> (\<exists>n\<ge>tid. k = toastKey n)"
proof
  assume "collides tid k"
  then show "\<exists>n\<ge>tid. k = toastKey n" unfolding collides_def by blast
next
  assume "\<exists>n\<ge>tid. k = toastKey n"
  then obtain n where n: "tid \<le> n" "k = toastKey n" by blast
  then have "parseNat (drop 6 k) = n" by (simp add: toastKey_def parseNat_digits)
  with n show "collides tid k" by (simp add: collides_def)
qed

text \<open>
  The read of \<open>toasts[length - 1]\<close> in \<open>dismissIfAtLimit\<close> is guarded by the
  truthiness test of \<open>maxToasts\<close>: at the limit the list is not empty, so
  admitting a toast never throws.
\<close>

lemma immediatelyShowToast_Inr:
  "immediatelyShowToast opt s = Inr (updateToastsInState ((#) opt) (evict s))"
proof (cases "atLimit s")
  case True
  then have "toasts s \<noteq> []"
    by (auto simp: atLimit_def truthy_def split: option.splits)
  with True show ?thesis
    by (auto simp: immediatelyShowToast_def dismissIfAtLimit_def evict_def atLimit_def
        split: list.splits)
next
  case False
  then show ?thesis
    by (auto simp: immediatelyShowToast_def dismissIfAtLimit_def evict_def atLimit_def
        split: list.splits)
qed

lemma show_pending:
  "list_ex (\<lambda>t. key t = k) (queue_toasts s) \<Longrightarrow>
   show p (Some k) s = Inr (k, s\<lparr> queue_toasts := replaceKey k (withKey p k) (queue_toasts s) \<rparr>)"
  by (simp add: show_def createToastOptions_def maybeUpdateExistingToast_def withKey_def replaceKey_def)

lemma show_visible:
  "\<not> list_ex (\<lambda>t. key t = k) (queue_toasts s) \<Longrightarrow> list_ex (\<lambda>t. key t = k) (toasts s) \<Longrightarrow>
   show p (Some k) s = Inr (k, s\<lparr> toasts := replaceKey k (withKey p k) (toasts s) \<rparr>)"
  by (simp add: show_def createToastOptions_def maybeUpdateExistingToast_def withKey_def replaceKey_def
      updateToastsInState_def)

lemma show_new_running:
  "isNew k s \<Longrightarrow> queue_isRunning s \<Longrightarrow>
   show p k s = Inr (resolve k s, (bump k s)\<lparr> queue_toasts := queue_toasts s @ [withKey p (resolve k s)] \<rparr>)"
  by (cases k) (simp_all add: show_def createToastOptions_def maybeUpdateExistingToast_def withKey_def
      isNew_def resolve_def bump_def)

lemma show_new_idle:
  "isNew k s \<Longrightarrow> \<not> queue_isRunning s \<Longrightarrow>
   show p k s = Inr (resolve k s,
     startQueueTimeout (updateToastsInState ((#) (withKey p (resolve k s))) (evict (bump k s))))"
  by (cases k) (simp_all add: show_def createToastOptions_def maybeUpdateExistingToast_def withKey_def
      isNew_def resolve_def bump_def immediatelyShowToast_Inr)

lemma show_total: "\<exists>r s'. show p k s = Inr (r, s')"
proof (cases "isNew k s")
  case True
  then show ?thesis
    by (cases "queue_isRunning s") (simp_all add: show_new_running show_new_idle)
next
  case False
  then obtain k' where k: "k = Some k'" by (cases k) (simp_all add: isNew_def)
  with False show ?thesis
    by (cases "list_ex (\<lambda>t. key t = k') (queue_toasts s)")
       (simp_all add: show_pending show_visible isNew_def)
qed

lemma fire_not_scheduled: "h \<notin> set (timeouts s) \<Longrightarrow> fire h s = Inr s"
  by (simp add: fire_def)

lemma fire_empty:
  "h \<in> set (timeouts s) \<Longrightarrow> queue_toasts s = [] \<Longrightarrow>
   fire h s = Inr (s\<lparr> timeouts := removeAll h (timeouts s), queue_isRunning := False \<rparr>)"
  by (simp add: fire_def handleQueueTimeout_def)

lemma fire_release:
  "h \<in> set (timeouts s) \<Longrightarrow> queue_toasts s = t # rest \<Longrightarrow>
   fire h s = Inr (startQueueTimeout (updateToastsInState ((#) t)
                (evict (s\<lparr> timeouts := removeAll h (timeouts s), queue_toasts := rest \<rparr>))))"
  by (simp add: fire_def handleQueueTimeout_def immediatelyShowToast_Inr)

lemma step_total: "\<exists>s'. step e s = Inr s'"
proof (cases e)
  case (Show p k)
  then show ?thesis using show_total [of p k s] by auto
next
  case (Fire h)
  then show ?thesis
    by (cases "h \<in> set (timeouts s)"; cases "queue_toasts s")
       (simp_all add: fire_not_scheduled fire_empty fire_release)
qed simp_all

lemma run_total: "\<exists>s'. run es s = Inr s'"
proof (induction es arbitrary: s)
  case (Cons e es)
  obtain s1 where "step e s = Inr s1" using step_total by blast
  with Cons show ?case by simp
qed simp

lemma run_append:
  "run (es @ fs) s = (case run es s of Inl err \<Rightarrow> Inl err | Inr s' \<Rightarrow> run fs s')"
  by (induction es arbitrary: s) (simp_all split: sum.splits)

text \<open>An invariant of every step is an invariant of every run.\<close>

lemma run_invariant:
  assumes step: "\<And>e s s'. P s \<Longrightarrow> step e s = Inr s' \<Longrightarrow> P s'"
    and "P s" and "run es s = Inr s'"
  shows "P s'"
  using assms(2,3)
proof (induction es arbitrary: s)
  case (Cons e es)
  obtain s1 where s1: "step e s = Inr s1" using step_total by blast
  with Cons.prems step have "P s1" by blast
  with Cons s1 show ?case by simp
qed simp

lemma evict_fields [simp]:
  "maxToasts (evict s) = maxToasts s"
  "queue_toasts (evict s) = queue_toasts s"
  "queue_isRunning (evict s) = queue_isRunning s"
  "queue_cancel (evict s) = queue_cancel s"
  "timeouts (evict s) = timeouts s"
  "toastId (evict s) = toastId s"
  "nextHandle (evict s) = nextHandle s"
  by (simp_all add: evict_def dismiss_def)

lemma toasts_evict:
  "toasts (evict s) = (if atLimit s then filter (\<lambda>t. key t \<noteq> key (last (toasts s))) (toasts s) else toasts s)"
  by (simp add: evict_def dismiss_def)

lemma startQueueTimeout_fields [simp]:
  "maxToasts (startQueueTimeout s) = maxToasts s"
  "toasts (startQueueTimeout s) = toasts s"
  "queue_toasts (startQueueTimeout s) = queue_toasts s"
  "queue_isRunning (startQueueTimeout s) = True"
  "queue_cancel (startQueueTimeout s) = Some (nextHandle s)"
  "timeouts (startQueueTimeout s) = timeouts s @ [nextHandle s]"
  "toastId (startQueueTimeout s) = toastId s"
  "trace (startQueueTimeout s) = trace s @ [TimerSet (nextHandle s)]"
  by (simp_all add: startQueueTimeout_def setTimeout_def)

lemma updateToastsInState_fields [simp]:
  "maxToasts (updateToastsInState f s) = maxToasts s"
  "toasts (updateToastsInState f s) = f (toasts s)"
  "queue_toasts (updateToastsInState f s) = queue_toasts s"
  "queue_isRunning (updateToastsInState f s) = queue_isRunning s"
  "queue_cancel (updateToastsInState f s) = queue_cancel s"
  "timeouts (updateToastsInState f s) = timeouts s"
  "toastId (updateToastsInState f s) = toastId s"
  "nextHandle (updateToastsInState f s) = nextHandle s"
  "trace (updateToastsInState f s) = trace s"
  by (simp_all add: updateToastsInState_def)

lemma bump_fields [simp]:
  "maxToasts (bump k s) = maxToasts s"
  "toasts (bump k s) = toasts s"
  "queue_toasts (bump k s) = queue_toasts s"
  "queue_isRunning (bump k s) = queue_isRunning s"
  "queue_cancel (bump k s) = queue_cancel s"
  "timeouts (bump k s) = timeouts s"
  "nextHandle (bump k s) = nextHandle s"
  "trace (bump k s) = trace s"
  by (simp_all add: bump_def split: option.splits)

lemma atLimit_bump [simp]: "atLimit (bump k s) = atLimit s"
  by (simp add: atLimit_def)

lemma clear_fields [simp]:
  "maxToasts (clear s) = maxToasts s"
  "toasts (clear s) = []"
  "queue_toasts (clear s) = []"
  "queue_isRunning (clear s) = False"
  "queue_cancel (clear s) = None"
  "toastId (clear s) = toastId s"
  by (simp_all add: clear_def clearTimeout_def Let_def split: option.splits)

lemma dismiss_fields [simp]:
  "maxToasts (dismiss k f s) = maxToasts s"
  "toasts (dismiss k f s) = filter (\<lambda>t. key t \<noteq> k) (toasts s)"
  "queue_toasts (dismiss k f s) = queue_toasts s"
  "queue_isRunning (dismiss k f s) = queue_isRunning s"
  "queue_cancel (dismiss k f s) = queue_cancel s"
  "timeouts (dismiss k f s) = timeouts s"
  "toastId (dismiss k f s) = toastId s"
  "nextHandle (dismiss k f s) = nextHandle s"
  "trace (dismiss k f s) = trace s @ dismissCalls k f (toasts s)"
  by (simp_all add: dismiss_def)

lemma replaceKey_length [simp]: "length (replaceKey k opt ts) = length ts"
  by (simp add: replaceKey_def)

lemma replaceKey_keys [simp]: "key opt = k \<Longrightarrow> map key (replaceKey k opt ts) = map key ts"
  by (simp add: replaceKey_def)

lemma key_withKey [simp]: "key (withKey p k) = k"
  by (simp add: withKey_def)

text \<open>The four ways a call of \<open>show\<close> can go.\<close>

lemma show_cases:
  obtains
    (pending) k' where "k = Some k'" "list_ex (\<lambda>t. key t = k') (queue_toasts s)"
      "show p k s = Inr (k', s\<lparr> queue_toasts := replaceKey k' (withKey p k') (queue_toasts s) \<rparr>)"
  | (visible) k' where "k = Some k'" "\<not> list_ex (\<lambda>t. key t = k') (queue_toasts s)"
      "list_ex (\<lambda>t. key t = k') (toasts s)"
      "show p k s = Inr (k', s\<lparr> toasts := replaceKey k' (withKey p k') (toasts s) \<rparr>)"
  | (queued) "isNew k s" "queue_isRunning s"
      "show p k s = Inr (resolve k s,
         (bump k s)\<lparr> queue_toasts := queue_toasts s @ [withKey p (resolve k s)] \<rparr>)"
  | (shown) "isNew k s" "\<not> queue_isRunning s"
      "show p k s = Inr (resolve k s,
         startQueueTimeout (updateToastsInState ((#) (withKey p (resolve k s))) (evict (bump k s))))"
proof (cases "isNew k s")
  case True
  then show ?thesis
    by (cases "queue_isRunning s") (auto intro: queued shown simp: show_new_running show_new_idle)
next
  case False
  then obtain k' where k: "k = Some k'" by (cases k) (simp_all add: isNew_def)
  show ?thesis
  proof (cases "list_ex (\<lambda>t. key t = k') (queue_toasts s)")
    case True
    then show ?thesis using k by (auto intro: pending simp: show_pending)
  next
    case nq: False
    with False k have "list_ex (\<lambda>t. key t = k') (toasts s)" by (simp add: isNew_def)
    with nq k show ?thesis by (auto intro: visible simp: show_visible)
  qed
qed

lemma length_evict_cons:
  assumes "maxToasts s = Some m" "1 \<le> m" "int (length (toasts s)) \<le> m"
  shows "int (length (t # toasts (evict s))) \<le> m"
proof (cases "atLimit s")
  case True
  with assms have ne: "toasts s \<noteq> []" by (auto simp: atLimit_def)
  then have "last (toasts s) \<in> set (toasts s)" by simp
  then have "length (filter (\<lambda>t. key t \<noteq> key (last (toasts s))) (toasts s)) < length (toasts s)"
    by (intro length_filter_less) auto
  with True assms show ?thesis by (simp add: toasts_evict)
next
  case False
  with assms have "int (length (toasts s)) \<noteq> m" by (auto simp: atLimit_def truthy_def)
  with False assms show ?thesis by (simp add: toasts_evict)
qed

lemma step_bounded:
  assumes m: "1 \<le> m" and b: "bounded m s" and st: "step e s = Inr s'"
  shows "bounded m s'"
proof (cases e)
  case (Show p k)
  show ?thesis
  proof (cases rule: show_cases [of k s p])
    case (pending k')
    with st Show b show ?thesis by (auto simp: bounded_def)
  next
    case (visible k')
    with st Show b show ?thesis by (auto simp: bounded_def)
  next
    case queued
    with st Show b show ?thesis by (auto simp: bounded_def)
  next
    case shown
    have "int (length (withKey p (resolve k s) # toasts (evict (bump k s)))) \<le> m"
      using b m by (intro length_evict_cons) (simp_all add: bounded_def)
    with shown st Show b show ?thesis by (auto simp: bounded_def)
  qed
next
  case (Dismiss k f)
  have "int (length (filter (\<lambda>t. key t \<noteq> k) (toasts s))) \<le> int (length (toasts s))"
    by simp
  with b have "int (length (filter (\<lambda>t. key t \<noteq> k) (toasts s))) \<le> m"
    unfolding bounded_def by linarith
  with st Dismiss b show ?thesis by (auto simp: bounded_def)
next
  case Clear
  with st b m show ?thesis by (auto simp: bounded_def)
next
  case (Fire h)
  show ?thesis
  proof (cases "h \<in> set (timeouts s)")
    case False
    with st Fire b show ?thesis by (simp add: fire_not_scheduled)
  next
    case True
    show ?thesis
    proof (cases "queue_toasts s")
      case Nil
      with True st Fire b show ?thesis by (auto simp: fire_empty bounded_def)
    next
      case (Cons t rest)
      let ?s0 = "s\<lparr> timeouts := removeAll h (timeouts s), queue_toasts := rest \<rparr>"
      have "int (length (t # toasts (evict ?s0))) \<le> m"
        using b m by (intro length_evict_cons) (simp_all add: bounded_def)
      with True Cons st Fire b show ?thesis by (auto simp: fire_release bounded_def)
    qed
  qed
qed

section \<open>The visible collection stays within \<open>maxToasts\<close>\<close>

text \<open>
  Claim C1. On a controller mounted with a \<open>maxToasts\<close> that \<open>validateProps\<close>
  accepts, every
  sequence of \<open>show\<close>, \<open>dismiss\<close> and \<open>clear\<close> calls and timer firings (so
  in particular every sequence of \<open>show\<close> calls with distinct keys and timer
  firings) runs without an error and ends in a state whose visible collection
  has at most \<open>maxToasts\<close> records. Every prefix of a sequence is a sequence, so
  the bound holds at every moment.
\<close>

theorem visible_never_exceeds_maxToasts:
  assumes "mount (Some m) = Inr s0"
  shows "\<exists>s. run es s0 = Inr s \<and> int (length (getToasts s)) \<le> m"
proof -
  from assms have m: "1 \<le> m" and s0: "s0 = initial (Some m)"
    by (auto simp: mount_def validateProps_def split: if_splits)
  obtain s where s: "run es s0 = Inr s" using run_total by blast
  have "bounded m s0" using m s0 by (simp add: bounded_def initial_def)
  with s have "bounded m s"
    using run_invariant [of "bounded m"] step_bounded [OF m] by blast
  with s show ?thesis by (simp add: bounded_def getToasts_def)
qed

theorem visible_never_exceeds_maxToasts_witness:
  "mount (Some 1) = Inr (initial (Some 1)) \<and>
   (case run [Show propsA None, Show propsB None, Fire 0] (initial (Some 1)) of
      Inl _ \<Rightarrow> False
    | Inr s \<Rightarrow> int (length (getToasts s)) \<le> 1)"
proof -
  have v: "mount (Some 1) = Inr (initial (Some 1))"
    by (simp add: mount_def validateProps_def)
  from visible_never_exceeds_maxToasts [OF v, of "[Show propsA None, Show propsB None, Fire 0]"]
  show ?thesis using v by auto
qed

section \<open>Invariants of every run\<close>

lemma sched_ok_initial: "sched_ok (initial mx)"
  by (simp add: sched_ok_def initial_def)

lemma clear_timeouts: "sched_ok s \<Longrightarrow> timeouts (clear s) = []"
  by (auto simp: sched_ok_def clear_def clearTimeout_def Let_def split: option.splits if_splits)

lemma step_sched_ok:
  assumes ok: "sched_ok s" and st: "step e s = Inr s'"
  shows "sched_ok s'"
proof (cases e)
  case (Show p k)
  show ?thesis
  proof (cases rule: show_cases [of k s p])
    case (pending k')
    with st Show ok show ?thesis by (auto simp: sched_ok_def split: option.splits)
  next
    case (visible k')
    with st Show ok show ?thesis by (auto simp: sched_ok_def split: option.splits)
  next
    case queued
    with st Show ok show ?thesis by (auto simp: sched_ok_def split: option.splits)
  next
    case shown
    with st Show ok show ?thesis by (auto simp: sched_ok_def split: option.splits)
  qed
next
  case (Dismiss k f)
  with st ok show ?thesis by (auto simp: sched_ok_def split: option.splits)
next
  case Clear
  from ok have "timeouts (clear s) = []" by (rule clear_timeouts)
  with st Clear show ?thesis by (auto simp: sched_ok_def)
next
  case (Fire h)
  show ?thesis
  proof (cases "h \<in> set (timeouts s)")
    case False
    with st Fire ok show ?thesis by (simp add: fire_not_scheduled)
  next
    case True
    with ok have t: "timeouts s = [h]"
      by (auto simp: sched_ok_def split: if_splits option.splits)
    show ?thesis
    proof (cases "queue_toasts s")
      case Nil
      with True st Fire t show ?thesis by (auto simp: fire_empty sched_ok_def split: option.splits)
    next
      case (Cons t' rest)
      with True st Fire t show ?thesis by (auto simp: fire_release sched_ok_def split: option.splits)
    qed
  qed
qed

lemma run_sched_ok: "run es (initial mx) = Inr s \<Longrightarrow> sched_ok s"
  using run_invariant [of sched_ok] step_sched_ok sched_ok_initial by blast

lemma collides_mono: "\<not> collides tid k \<Longrightarrow> tid \<le> tid' \<Longrightarrow> \<not> collides tid' k"
  by (auto simp: collides_iff)

lemma collides_toastKey: "collides tid (toastKey n) \<longleftrightarrow> tid \<le> n"
  by (auto simp: collides_iff toastKey_inj)

lemma list_ex_key: "list_ex (\<lambda>t. key t = k) ts \<longleftrightarrow> k \<in> set (map key ts)"
  by (auto simp: list_ex_iff)

lemma distinct_keys_filter: "distinct (map key ts) \<Longrightarrow> distinct (map key (filter P ts))"
  by (simp add: distinct_map_filter)

lemma keys_evict_subset: "set (map key (toasts (evict s))) \<subseteq> set (map key (toasts s))"
  by (auto simp: toasts_evict)

lemma distinct_keys_evict: "distinct (map key (toasts s)) \<Longrightarrow> distinct (map key (toasts (evict s)))"
  by (simp add: toasts_evict distinct_map_filter)

lemma resolve_fresh:
  assumes "uniq s" "isNew k s"
  shows "resolve k s \<notin> set (keys s)"
proof (cases k)
  case None
  have "collides (toastId s) (toastKey (toastId s))" by (simp add: collides_toastKey)
  with assms None show ?thesis by (auto simp: uniq_def list_all_iff resolve_def)
next
  case (Some k')
  with assms show ?thesis by (auto simp: isNew_def list_ex_key keys_def resolve_def)
qed

lemma resolve_no_collision:
  assumes "event_ok (Show p k) s"
  shows "\<not> collides (toastId (bump k s)) (resolve k s)"
  using assms by (cases k) (simp_all add: resolve_def bump_def collides_toastKey incr_def)

lemma toastId_bump_le: "toastId s \<le> toastId (bump k s)"
  by (cases k) (simp_all add: bump_def incr_def)

text \<open>Adding a fresh key to a part of the old keys keeps them unique.\<close>

lemma uniq_add:
  assumes u: "uniq s" and new: "k \<notin> set (keys s)" and nc: "\<not> collides (toastId s') k"
    and le: "toastId s \<le> toastId s'"
    and d: "distinct (keys s')" and sub: "set (keys s') \<subseteq> insert k (set (keys s))"
  shows "uniq s'"
proof -
  have "\<not> collides (toastId s') k'" if "k' \<in> set (keys s')" for k'
  proof (cases "k' = k")
    case True
    with nc show ?thesis by simp
  next
    case False
    with that sub have "k' \<in> set (keys s)" by auto
    with u have "\<not> collides (toastId s) k'" by (auto simp: uniq_def list_all_iff)
    with le show ?thesis using collides_mono by blast
  qed
  with d show ?thesis by (auto simp: uniq_def list_all_iff)
qed

lemma uniq_sub:
  assumes u: "uniq s" and le: "toastId s = toastId s'"
    and d: "distinct (keys s')" and sub: "set (keys s') \<subseteq> set (keys s)"
  shows "uniq s'"
  using assms by (auto simp: uniq_def list_all_iff)

lemma step_uniq:
  assumes u: "uniq s" and ok: "event_ok e s" and st: "step e s = Inr s'"
  shows "uniq s'"
proof (cases e)
  case (Show p k)
  from u have d: "distinct (map key (queue_toasts s))" "distinct (map key (toasts s))"
    "set (map key (queue_toasts s)) \<inter> set (map key (toasts s)) = {}"
    by (auto simp: uniq_def keys_def)
  show ?thesis
  proof (cases rule: show_cases [of k s p])
    case (pending k')
    with st Show have "keys s' = keys s" "toastId s' = toastId s" by (auto simp: keys_def)
    with u show ?thesis by (simp add: uniq_def)
  next
    case (visible k')
    with st Show have "keys s' = keys s" "toastId s' = toastId s" by (auto simp: keys_def)
    with u show ?thesis by (simp add: uniq_def)
  next
    case queued
    let ?k = "resolve k s"
    have new: "?k \<notin> set (keys s)" using u queued(1) by (rule resolve_fresh)
    from queued st Show have s': "s' = (bump k s)\<lparr> queue_toasts := queue_toasts s @ [withKey p ?k] \<rparr>"
      by simp
    show ?thesis
    proof (rule uniq_add [OF u new])
      show "\<not> collides (toastId s') ?k" using resolve_no_collision ok Show s' by simp
      show "toastId s \<le> toastId s'" using s' toastId_bump_le by simp
      show "distinct (keys s')" using d new s' by (auto simp: keys_def)
      show "set (keys s') \<subseteq> insert ?k (set (keys s))" using s' by (auto simp: keys_def)
    qed
  next
    case shown
    let ?k = "resolve k s"
    have new: "?k \<notin> set (keys s)" using u shown(1) by (rule resolve_fresh)
    from shown st Show have s': "s' = startQueueTimeout
        (updateToastsInState ((#) (withKey p ?k)) (evict (bump k s)))"
      by simp
    have sub: "set (map key (toasts (evict (bump k s)))) \<subseteq> set (map key (toasts s))"
      using keys_evict_subset [of "bump k s"] by simp
    have de: "distinct (map key (toasts (evict (bump k s))))"
      using distinct_keys_evict [of "bump k s"] d by simp
    have dj: "set (map key (queue_toasts s)) \<inter> set (map key (toasts (evict (bump k s)))) = {}"
      using sub d(3) by blast
    have nt: "?k \<notin> set (map key (toasts (evict (bump k s))))"
      "?k \<notin> set (map key (queue_toasts s))"
      using new sub by (auto simp: keys_def)
    show ?thesis
    proof (rule uniq_add [OF u new])
      show "\<not> collides (toastId s') ?k" using resolve_no_collision ok Show s' by simp
      show "toastId s \<le> toastId s'" using s' toastId_bump_le by simp
      show "distinct (keys s')" using d(1) nt s' dj de by (simp add: keys_def)
      show "set (keys s') \<subseteq> insert ?k (set (keys s))" using s' sub by (auto simp: keys_def)
    qed
  qed
next
  case (Dismiss k f)
  with st have s': "s' = dismiss k f s" by simp
  show ?thesis
    by (rule uniq_sub [OF u]) (use u s' in \<open>auto simp: keys_def uniq_def distinct_map_filter\<close>)
next
  case Clear
  with st show ?thesis by (auto simp: uniq_def keys_def)
next
  case (Fire h)
  show ?thesis
  proof (cases "h \<in> set (timeouts s)")
    case False
    with st Fire u show ?thesis by (simp add: fire_not_scheduled)
  next
    case True
    show ?thesis
    proof (cases "queue_toasts s")
      case Nil
      with True st Fire u show ?thesis by (auto simp: fire_empty uniq_def keys_def)
    next
      case (Cons t rest)
      let ?s0 = "s\<lparr> timeouts := removeAll h (timeouts s), queue_toasts := rest \<rparr>"
      from True Cons st Fire
      have s': "s' = startQueueTimeout (updateToastsInState ((#) t) (evict ?s0))"
        by (simp add: fire_release)
      have sub: "set (map key (toasts (evict ?s0))) \<subseteq> set (map key (toasts s))"
        using keys_evict_subset [of ?s0] by simp
      have de: "distinct (map key (toasts (evict ?s0)))"
        using distinct_keys_evict [of ?s0] u by (simp add: uniq_def keys_def)
      from u Cons have dq: "distinct (map key rest)" "key t \<notin> set (map key rest)"
        "key t \<notin> set (map key (toasts s))"
        "set (map key rest) \<inter> set (map key (toasts s)) = {}"
        by (auto simp: uniq_def keys_def)
      have dj: "set (map key rest) \<inter> set (map key (toasts (evict ?s0))) = {}"
        "key t \<notin> set (map key (toasts (evict ?s0)))"
        using sub dq by blast+
      show ?thesis
      proof (rule uniq_sub [OF u])
        show "toastId s = toastId s'" using s' by simp
        show "distinct (keys s')" using dq(1,2) dj de s' by (simp add: keys_def)
        show "set (keys s') \<subseteq> set (keys s)" using Cons s' sub by (auto simp: keys_def)
      qed
    qed
  qed
qed

lemma atLimit_queue_update [simp]:
  "atLimit (s\<lparr> timeouts := ts, queue_toasts := q \<rparr>) = atLimit s"
  by (simp add: atLimit_def)

lemma toasts_evict_queue_update [simp]:
  "toasts (evict (s\<lparr> timeouts := ts, queue_toasts := q \<rparr>)) = toasts (evict s)"
  by (simp add: toasts_evict)

lemma subseq_toasts_evict: "subseq (toasts (evict s)) (toasts s)"
  by (simp add: toasts_evict)

lemma toasts_evict_unlimited: "\<not> truthy (maxToasts s) \<Longrightarrow> toasts (evict s) = toasts s"
  by (simp add: toasts_evict atLimit_def)

text \<open>One firing with a non-empty queue releases the head of the queue.\<close>

lemma fireArmed_release:
  assumes ok: "sched_ok s" and q: "queue_toasts s = t # rest"
  shows "\<exists>s'. fireArmed s = Inr s' \<and> sched_ok s' \<and> maxToasts s' = maxToasts s \<and>
           queue_toasts s' = rest \<and> toasts s' = t # toasts (evict s)"
proof -
  from ok q obtain h where h: "timeouts s = [h]"
    by (auto simp: sched_ok_def split: if_splits option.splits)
  let ?s' = "startQueueTimeout (updateToastsInState ((#) t)
               (evict (s\<lparr> timeouts := removeAll h (timeouts s), queue_toasts := rest \<rparr>)))"
  from h q have f: "fireArmed s = Inr ?s'" by (simp add: fireArmed_def fire_release)
  then have "step (Fire h) s = Inr ?s'" using h by (simp add: fireArmed_def)
  with ok have "sched_ok ?s'" by (rule step_sched_ok)
  with f show ?thesis by simp
qed

lemma fireN_Suc_end:
  "fireN (Suc n) s = (case fireN n s of Inl e \<Rightarrow> Inl e | Inr s' \<Rightarrow> fireArmed s')"
proof (induction n arbitrary: s)
  case 0
  show ?case by (simp split: sum.splits)
next
  case (Suc n)
  show ?case
  proof (cases "fireArmed s")
    case (Inl e)
    then show ?thesis by simp
  next
    case (Inr s')
    then have a: "fireN (Suc (Suc n)) s = fireN (Suc n) s'" by simp
    from Inr have b: "fireN (Suc n) s = fireN n s'" by simp
    show ?thesis unfolding a b by (rule Suc.IH)
  qed
qed

lemma fireN_release:
  assumes ok: "sched_ok s" and n: "n \<le> length (queue_toasts s)"
  shows "\<exists>s'. fireN n s = Inr s' \<and> sched_ok s' \<and> maxToasts s' = maxToasts s \<and>
           queue_toasts s' = drop n (queue_toasts s) \<and>
           subseq (toasts s') (rev (take n (queue_toasts s)) @ toasts s) \<and>
           (\<not> truthy (maxToasts s) \<longrightarrow> toasts s' = rev (take n (queue_toasts s)) @ toasts s)"
  using n
proof (induction n)
  case 0
  with ok show ?case by simp
next
  case (Suc n)
  let ?q = "queue_toasts s"
  from Suc obtain s1 where s1: "fireN n s = Inr s1" "sched_ok s1" "maxToasts s1 = maxToasts s"
    "queue_toasts s1 = drop n ?q" "subseq (toasts s1) (rev (take n ?q) @ toasts s)"
    "\<not> truthy (maxToasts s) \<longrightarrow> toasts s1 = rev (take n ?q) @ toasts s"
    by auto
  from Suc.prems have lt: "n < length ?q" by simp
  then have dq: "drop n ?q = ?q ! n # drop (Suc n) ?q" by (simp add: Cons_nth_drop_Suc)
  from fireArmed_release [OF s1(2)] s1(4) dq
  obtain s2 where s2: "fireArmed s1 = Inr s2" "sched_ok s2" "maxToasts s2 = maxToasts s1"
    "queue_toasts s2 = drop (Suc n) ?q" "toasts s2 = ?q ! n # toasts (evict s1)"
    by auto
  have tk: "rev (take (Suc n) ?q) = ?q ! n # rev (take n ?q)"
    using lt by (simp add: take_Suc_conv_app_nth)
  have "subseq (toasts (evict s1)) (rev (take n ?q) @ toasts s)"
    using subseq_toasts_evict s1(5) by (rule subseq_order.order_trans)
  then have sub: "subseq (toasts s2) (rev (take (Suc n) ?q) @ toasts s)"
    using s2(5) tk by simp
  have eq: "toasts s2 = rev (take (Suc n) ?q) @ toasts s" if "\<not> truthy (maxToasts s)"
    using that s1(3,6) s2(5) tk by (simp add: toasts_evict_unlimited)
  from s1(1) s2(1) have "fireN (Suc n) s = Inr s2" by (simp add: fireN_Suc_end del: fireN.simps)
  with s2 s1(3) sub eq show ?case by auto
qed

text \<open>The record at position \<open>i\<close> of the queue is released by firing number \<open>i + 1\<close>.\<close>

lemma fireN_release_nth:
  assumes ok: "sched_ok s" and i: "i < length (queue_toasts s)"
  obtains s0 s1 rest where "fireN i s = Inr s0" and "fireN (Suc i) s = Inr s1"
    and "queue_toasts s0 = drop i (queue_toasts s)"
    and "queue_toasts s1 = drop (Suc i) (queue_toasts s)"
    and "toasts s1 = queue_toasts s ! i # rest" and "subseq rest (toasts s0)"
    and "subseq (toasts s0) (rev (take i (queue_toasts s)) @ toasts s)"
proof -
  let ?q = "queue_toasts s"
  from i have "i \<le> length ?q" by simp
  from fireN_release [OF ok this]
  obtain s0 where s0: "fireN i s = Inr s0" "sched_ok s0" "queue_toasts s0 = drop i ?q"
    "subseq (toasts s0) (rev (take i ?q) @ toasts s)"
    by auto
  from i have dq: "drop i ?q = ?q ! i # drop (Suc i) ?q" by (simp add: Cons_nth_drop_Suc)
  from fireArmed_release [OF s0(2)] s0(3) dq
  obtain s1 where s1: "fireArmed s0 = Inr s1" "queue_toasts s1 = drop (Suc i) ?q"
    "toasts s1 = ?q ! i # toasts (evict s0)"
    by auto
  from s0(1) s1(1) have fn: "fireN (Suc i) s = Inr s1"
    by (simp add: fireN_Suc_end del: fireN.simps)
  from s0(1) fn s0(3) s1(2) s1(3) subseq_toasts_evict [of s0] s0(4)
  show ?thesis by (rule that)
qed

lemma example_full_reached:
  "run [Show propsA None, Show propsB None] (initial (Some 1)) = Inr example_full"
  by code_simp

lemma atLimit_nonempty: "atLimit s \<Longrightarrow> toasts s \<noteq> []"
  by (auto simp: atLimit_def truthy_def split: option.splits)

lemma filter_last_out:
  "ts \<noteq> [] \<Longrightarrow> filter (\<lambda>t. key t \<noteq> key (last ts)) ts
     = filter (\<lambda>t. key t \<noteq> key (last ts)) (butlast ts)"
proof -
  assume "ts \<noteq> []"
  then have "ts = butlast ts @ [last ts]" by simp
  then have "filter (\<lambda>t. key t \<noteq> key (last ts)) ts
      = filter (\<lambda>t. key t \<noteq> key (last ts)) (butlast ts @ [last ts])" by simp
  then show ?thesis by simp
qed

lemma dismissCalls_append:
  "dismissCalls k f (xs @ ys) = dismissCalls k f xs @ dismissCalls k f ys"
  by (simp add: dismissCalls_def List.map_filter_def)

lemma dismissCalls_single:
  "dismissCalls (key t) f [t] = (case onDismiss t of None \<Rightarrow> [] | Some cb \<Rightarrow> [OnDismiss cb f])"
  by (simp add: dismissCalls_def List.map_filter_def split: option.splits)

lemma dismissCalls_last:
  assumes "ts \<noteq> []"
  shows "dismissCalls (key (last ts)) f ts
     = dismissCalls (key (last ts)) f (butlast ts)
       @ (case onDismiss (last ts) of None \<Rightarrow> [] | Some cb \<Rightarrow> [OnDismiss cb f])"
proof -
  from assms have "ts = butlast ts @ [last ts]" by simp
  then have "dismissCalls (key (last ts)) f ts
      = dismissCalls (key (last ts)) f (butlast ts @ [last ts])" by simp
  then show ?thesis by (simp only: dismissCalls_append dismissCalls_single)
qed

lemma dismissCalls_absent: "k \<notin> set (map key ts) \<Longrightarrow> dismissCalls k f ts = []"
  by (induction ts) (auto simp: dismissCalls_def List.map_filter_def)

lemma filter_absent: "k \<notin> set (map key ts) \<Longrightarrow> filter (\<lambda>t. key t \<noteq> k) ts = ts"
  by (induction ts) auto

section \<open>Eviction at the limit\<close>

text \<open>
  Claim C2. When a toast is admitted to the visible collection
  (\<open>immediatelyShowToast\<close>, the only place where \<open>show\<close> and the timer admit
  one) while \<open>maxToasts\<close> is configured and the visible collection is at that
  limit, the collection is not empty, the oldest record (its last element) is
  dismissed first and the new record is prepended to what is left: the
  last element is gone from the collection, and the trace is extended by the
  call of its \<open>onDismiss\<close> with \<open>false\<close> (after the calls for earlier records
  that carry the same key, if there are any).
\<close>

theorem admission_at_limit_evicts_oldest:
  assumes "atLimit s"
  shows "toasts s \<noteq> [] \<and>
    immediatelyShowToast opt s
      = Inr (updateToastsInState ((#) opt) (dismiss (key (last (toasts s))) False s)) \<and>
    toasts (dismiss (key (last (toasts s))) False s)
      = filter (\<lambda>t. key t \<noteq> key (last (toasts s))) (butlast (toasts s)) \<and>
    trace (dismiss (key (last (toasts s))) False s)
      = trace s @ dismissCalls (key (last (toasts s))) False (butlast (toasts s))
          @ (case onDismiss (last (toasts s)) of None \<Rightarrow> [] | Some cb \<Rightarrow> [OnDismiss cb False])"
proof -
  from assms have ne: "toasts s \<noteq> []" by (rule atLimit_nonempty)
  have "immediatelyShowToast opt s
      = Inr (updateToastsInState ((#) opt) (dismiss (key (last (toasts s))) False s))"
    using assms by (simp add: immediatelyShowToast_Inr evict_def)
  moreover have "toasts (dismiss (key (last (toasts s))) False s)
      = filter (\<lambda>t. key t \<noteq> key (last (toasts s))) (butlast (toasts s))"
    using ne by (simp add: filter_last_out)
  moreover have "trace (dismiss (key (last (toasts s))) False s)
      = trace s @ dismissCalls (key (last (toasts s))) False (butlast (toasts s))
          @ (case onDismiss (last (toasts s)) of None \<Rightarrow> [] | Some cb \<Rightarrow> [OnDismiss cb False])"
    using ne by (simp add: dismissCalls_last)
  ultimately show ?thesis using ne by blast
qed

theorem admission_at_limit_evicts_oldest_witness:
  "atLimit example_full \<and>
   immediatelyShowToast (withKey propsB ''toast-1'') example_full
     = Inr (example_full\<lparr> toasts := [withKey propsB ''toast-1''],
                          trace := [TimerSet 0, OnDismiss 1 False] \<rparr>)"
proof -
  have a: "atLimit example_full" by code_simp
  have d: "updateToastsInState ((#) (withKey propsB ''toast-1''))
             (dismiss (key (last (toasts example_full))) False example_full)
           = example_full\<lparr> toasts := [withKey propsB ''toast-1''],
                            trace := [TimerSet 0, OnDismiss 1 False] \<rparr>"
    by code_simp
  from admission_at_limit_evicts_oldest [OF a, of "withKey propsB ''toast-1''"] d a
  show ?thesis by simp
qed

section \<open>Dismissing an identifier that is not visible\<close>

text \<open>
  Claim C5. For an identifier that no visible record carries, \<open>dismiss\<close>
  returns normally and leaves the controller as it was: the visible collection
  is unchanged and no dismissal callback is called.
\<close>

theorem dismiss_absent_is_noop:
  assumes "k \<notin> set (map key (toasts s))"
  shows "step (Dismiss k timeoutExpired) s = Inr s \<and> dismiss k timeoutExpired s = s \<and>
         dismissCalls k timeoutExpired (toasts s) = []"
  using assms by (simp add: dismiss_def dismissCalls_absent filter_absent)

theorem dismiss_absent_is_noop_witness:
  "''toast-1'' \<notin> set (map key (toasts example_full)) \<and>
   step (Dismiss ''toast-1'' False) example_full = Inr example_full \<and>
   dismiss ''toast-1'' False example_full = example_full \<and>
   dismissCalls ''toast-1'' False (toasts example_full) = []"
proof -
  have a: "''toast-1'' \<notin> set (map key (toasts example_full))" by code_simp
  from dismiss_absent_is_noop [OF a] a show ?thesis by simp
qed

section \<open>Calls that are flushed one by one\<close>

text \<open>
  A call in a batch of its own ends in the state the immediate definitions
  give, except for the order of the trace: a callback of the eviction runs at
  the flush, after the timer has been set.
\<close>

lemma onInst_simps [simp]:
  "inst (onInst f b) = f (inst b)" "queued (onInst f b) = queued b"
  by (simp_all add: onInst_def)

lemma setState_simps [simp]:
  "inst (setState u b) = inst b" "queued (setState u b) = queued b @ [u]"
  by (simp_all add: setState_def)

lemma settled_simps [simp]: "inst (settled s) = s" "queued (settled s) = []"
  by (simp_all add: settled_def)

lemma flush_simps [simp]:
  "inst (flush b) = foldl (\<lambda>s u. applyUpdate u s) (inst b) (queued b)" "queued (flush b) = []"
  by (simp_all add: flush_def)

lemma callFlushed_Dismiss: "callFlushed (Dismiss k f) s = Inr (dismiss k f s)"
  by (simp add: callFlushed_def dismissB_def)

lemma callFlushed_Clear: "callFlushed Clear s = Inr (clear s)"
  by (simp add: callFlushed_def clearB_def clear_def Let_def clearTimeout_def split: option.splits)

lemma immediatelyShowToastB_Inr:
  "immediatelyShowToastB opt b =
     Inr (setState (Prepend opt)
            (if atLimit (inst b) then setState (Filter (key (last (toasts (inst b)))) False) b else b))"
proof (cases "atLimit (inst b)")
  case True
  then have "toasts (inst b) \<noteq> []" by (rule atLimit_nonempty)
  with True show ?thesis
    by (auto simp: immediatelyShowToastB_def dismissIfAtLimitB_def dismissB_def atLimit_def
        split: list.splits)
next
  case False
  then show ?thesis
    by (auto simp: immediatelyShowToastB_def dismissIfAtLimitB_def dismissB_def atLimit_def
        split: list.splits)
qed

lemma callFlushed_Fire:
  assumes "step (Fire h) s = Inr s'"
  shows "map_sum id (\<lambda>sF. sF\<lparr> trace := [] \<rparr>) (callFlushed (Fire h) s) = Inr (s'\<lparr> trace := [] \<rparr>)"
proof (cases "h \<in> set (timeouts s)")
  case False
  with assms show ?thesis by (simp add: callFlushed_def fireB_def fire_not_scheduled)
next
  case True
  show ?thesis
  proof (cases "queue_toasts s")
    case Nil
    with True assms show ?thesis
      by (auto simp: callFlushed_def fireB_def handleQueueTimeoutB_def fire_empty)
  next
    case (Cons t rest)
    with True assms show ?thesis
      by (auto simp: callFlushed_def fireB_def handleQueueTimeoutB_def fire_release
          immediatelyShowToastB_Inr evict_def atLimit_def startQueueTimeout_def setTimeout_def
          updateToastsInState_def dismiss_def)
  qed
qed

lemma createToastOptions_eq:
  "createToastOptions p k s = (withKey p (resolve k s), bump k s)"
  by (cases k) (simp_all add: createToastOptions_def resolve_def bump_def)

lemma isNew_bump [simp]: "isNew k (bump k s) = isNew k s"
  by (simp add: isNew_def split: option.splits)

lemma callFlushed_Show:
  assumes "step (Show p k) s = Inr s'"
  shows "map_sum id (\<lambda>sF. sF\<lparr> trace := [] \<rparr>) (callFlushed (Show p k) s) = Inr (s'\<lparr> trace := [] \<rparr>)"
proof (cases rule: show_cases [of k s p])
  case (pending k')
  with assms show ?thesis
    by (simp add: callFlushed_def showB_def createToastOptions_eq maybeUpdateExistingToastB_def
        resolve_def bump_def replaceKey_def)
next
  case (visible k')
  with assms show ?thesis
    by (simp add: callFlushed_def showB_def createToastOptions_eq maybeUpdateExistingToastB_def
        resolve_def bump_def replaceKey_def updateToastsInState_def)
next
  case queued
  then have "maybeUpdateExistingToastB (withKey p (resolve k s)) k (settled s\<lparr> inst := bump k s \<rparr>)
      = (False, settled s\<lparr> inst := bump k s \<rparr>)"
    by (cases k) (simp_all add: maybeUpdateExistingToastB_def isNew_def)
  with queued assms show ?thesis
    by (simp add: callFlushed_def showB_def createToastOptions_eq)
next
  case shown
  then have "maybeUpdateExistingToastB (withKey p (resolve k s)) k (settled s\<lparr> inst := bump k s \<rparr>)
      = (False, settled s\<lparr> inst := bump k s \<rparr>)"
    by (cases k) (simp_all add: maybeUpdateExistingToastB_def isNew_def)
  with shown assms show ?thesis
    by (auto simp: callFlushed_def showB_def createToastOptions_eq immediatelyShowToastB_Inr
        evict_def startQueueTimeout_def setTimeout_def updateToastsInState_def dismiss_def)
qed

lemma callFlushed_step:
  assumes "step e s = Inr s'"
  shows "map_sum id (\<lambda>sF. sF\<lparr> trace := [] \<rparr>) (callFlushed e s) = Inr (s'\<lparr> trace := [] \<rparr>)"
proof (cases e)
  case (Show p k)
  with assms show ?thesis by (simp add: callFlushed_Show del: step.simps)
next
  case (Dismiss k f)
  with assms show ?thesis by (auto simp: callFlushed_Dismiss)
next
  case Clear
  with assms show ?thesis by (auto simp: callFlushed_Clear)
next
  case (Fire h)
  with assms show ?thesis by (simp add: callFlushed_Fire del: step.simps)
qed

lemma callFlushed_total: "\<exists>sF. callFlushed e s = Inr sF"
proof -
  obtain s' where "step e s = Inr s'" using step_total by blast
  then have "map_sum id (\<lambda>sF. sF\<lparr> trace := [] \<rparr>) (callFlushed e s) = Inr (s'\<lparr> trace := [] \<rparr>)"
    by (rule callFlushed_step)
  then show ?thesis by (cases "callFlushed e s") simp_all
qed

lemma uniq_trace: "uniq (s\<lparr> trace := t \<rparr>) = uniq s"
  by (simp add: uniq_def keys_def)

lemma uniq_untraced:
  assumes "sF\<lparr> trace := [] \<rparr> = s'\<lparr> trace := [] \<rparr>"
  shows "uniq sF = uniq s'"
proof -
  have "uniq sF = uniq (sF\<lparr> trace := [] \<rparr>)" by (simp only: uniq_trace)
  also have "\<dots> = uniq (s'\<lparr> trace := [] \<rparr>)" by (simp only: assms)
  also have "\<dots> = uniq s'" by (simp only: uniq_trace)
  finally show ?thesis .
qed

lemma callFlushed_uniq:
  assumes u: "uniq s" and ok: "event_ok e s" and c: "callFlushed e s = Inr sF"
  shows "uniq sF"
proof -
  obtain s' where s': "step e s = Inr s'" using step_total by blast
  with u ok have u': "uniq s'" by (rule step_uniq)
  from callFlushed_step [OF s'] have "sF\<lparr> trace := [] \<rparr> = s'\<lparr> trace := [] \<rparr>"
    unfolding c by simp
  then have "uniq sF = uniq s'" by (rule uniq_untraced)
  with u' show ?thesis by (simp only:)
qed

lemma runFlushed_uniq:
  "uniq s \<Longrightarrow> keys_ok es s \<Longrightarrow> \<exists>s'. runFlushed es s = Inr s' \<and> uniq s'"
proof (induction es arbitrary: s)
  case (Cons e es)
  obtain s1 where s1: "callFlushed e s = Inr s1" using callFlushed_total by blast
  from Cons.prems(2) have ok: "event_ok e s" by simp
  from Cons.prems(1) ok s1 have u1: "uniq s1" by (rule callFlushed_uniq)
  from Cons.prems(2) s1 have "keys_ok es s1" by simp
  with u1 have "\<exists>s'. runFlushed es s1 = Inr s' \<and> uniq s'" by (rule Cons.IH)
  with s1 show ?case by simp
qed simp

lemma applyUpdate_fields [simp]:
  "queue_cancel (applyUpdate u s) = queue_cancel s"
  "queue_isRunning (applyUpdate u s) = queue_isRunning s"
  "queue_toasts (applyUpdate u s) = queue_toasts s"
  by (cases u; simp)+

lemma foldl_applyUpdate_fields [simp]:
  "queue_cancel (foldl (\<lambda>s u. applyUpdate u s) s us) = queue_cancel s"
  "queue_isRunning (foldl (\<lambda>s u. applyUpdate u s) s us) = queue_isRunning s"
  "queue_toasts (foldl (\<lambda>s u. applyUpdate u s) s us) = queue_toasts s"
  by (induction us arbitrary: s) simp_all

lemma clearB_fields [simp]:
  "queue_cancel (inst (clearB b)) = None"
  "queue_isRunning (inst (clearB b)) = False"
  "queue_toasts (inst (clearB b)) = []"
  "queued (clearB b) = queued b @ [Reset]"
  by (simp_all add: clearB_def Let_def)

lemma runB_clear_flush: "runB [Do Clear, Flush] b = Inr (flush (clearB b))"
  by simp

lemma flush_clearB_settled: "flush (clearB (settled s)) = settled (clear s)"
  by (simp add: flush_def settled_def clearB_def clear_def Let_def clearTimeout_def onInst_def
      setState_def split: option.splits)

lemma settled_flush: "settled (inst (flush b)) = flush b"
  by (simp add: settled_def flush_def)

lemma clearCalls_eq:
  "clearCalls ts = map (\<lambda>cb. OnDismiss cb False) (List.map_filter onDismiss ts)"
  by (induction ts) (auto simp: clearCalls_def List.map_filter_def)

lemma clear_eq:
  "clear s =
     (case queue_cancel s of None \<Rightarrow> s | Some h \<Rightarrow> clearTimeout h s)
       \<lparr> queue_cancel := None, queue_isRunning := False, queue_toasts := [],
         trace := trace s @ (case queue_cancel s of None \<Rightarrow> [] | Some h \<Rightarrow> [TimerCancelled h])
                    @ clearCalls (toasts s),
         toasts := [] \<rparr>"
  by (simp add: clear_def clearTimeout_def Let_def split: option.splits)

section \<open>Clearing\<close>

text \<open>
  Claim C6. In every state a run can reach, the first statement of \<open>clear\<close>
  (calling \<open>queue.cancel\<close>) leaves no timeout scheduled and does not touch the
  two collections; \<open>clear\<close> as a whole extends the trace by the cancellation
  followed by one call \<open>onDismiss(false)\<close> for each visible record that has a
  callback, in order, and leaves both collections empty and the scheduler idle.
\<close>

theorem clear_cancels_then_dismisses_all:
  assumes "run es (initial mx) = Inr s"
  shows "timeouts (case queue_cancel s of None \<Rightarrow> s | Some h \<Rightarrow> clearTimeout h s) = [] \<and>
    toasts (case queue_cancel s of None \<Rightarrow> s | Some h \<Rightarrow> clearTimeout h s) = toasts s \<and>
    queue_toasts (case queue_cancel s of None \<Rightarrow> s | Some h \<Rightarrow> clearTimeout h s) = queue_toasts s \<and>
    clear s =
     (case queue_cancel s of None \<Rightarrow> s | Some h \<Rightarrow> clearTimeout h s)
       \<lparr> queue_cancel := None, queue_isRunning := False, queue_toasts := [],
         trace := trace s @ (case queue_cancel s of None \<Rightarrow> [] | Some h \<Rightarrow> [TimerCancelled h])
                    @ map (\<lambda>cb. OnDismiss cb False) (List.map_filter onDismiss (toasts s)),
         toasts := [] \<rparr> \<and>
    timeouts (clear s) = [] \<and> queue_toasts (clear s) = [] \<and> getToasts (clear s) = [] \<and>
    \<not> queue_isRunning (clear s)"
proof -
  from assms have ok: "sched_ok s" by (rule run_sched_ok)
  then have "timeouts (case queue_cancel s of None \<Rightarrow> s | Some h \<Rightarrow> clearTimeout h s) = []"
    by (auto simp: sched_ok_def clearTimeout_def split: option.splits if_splits)
  moreover have "toasts (case queue_cancel s of None \<Rightarrow> s | Some h \<Rightarrow> clearTimeout h s) = toasts s"
    "queue_toasts (case queue_cancel s of None \<Rightarrow> s | Some h \<Rightarrow> clearTimeout h s) = queue_toasts s"
    by (simp_all add: clearTimeout_def split: option.splits)
  moreover have "timeouts (clear s) = []" using ok by (rule clear_timeouts)
  ultimately show ?thesis
    using clear_eq [of s] by (simp add: clearCalls_eq getToasts_def)
qed

theorem clear_cancels_then_dismisses_all_witness:
  "run [Show propsA None, Show propsB None] (initial (Some 1)) = Inr example_full \<and>
   clear example_full =
     \<lparr> maxToasts = Some 1, toasts = [], queue_cancel = None, queue_isRunning = False,
       queue_toasts = [], toastId = 2, timeouts = [], nextHandle = 1,
       trace = [TimerSet 0, TimerCancelled 0, OnDismiss 1 False] \<rparr>"
proof -
  have r: "run [Show propsA None, Show propsB None] (initial (Some 1)) = Inr example_full"
    by (rule example_full_reached)
  have e: "(case queue_cancel example_full of None \<Rightarrow> example_full
            | Some h \<Rightarrow> clearTimeout h example_full)
       \<lparr> queue_cancel := None, queue_isRunning := False, queue_toasts := [],
         trace := trace example_full
                    @ (case queue_cancel example_full of None \<Rightarrow> [] | Some h \<Rightarrow> [TimerCancelled h])
                    @ map (\<lambda>cb. OnDismiss cb False) (List.map_filter onDismiss (toasts example_full)),
         toasts := [] \<rparr>
      = \<lparr> maxToasts = Some 1, toasts = [], queue_cancel = None, queue_isRunning = False,
       queue_toasts = [], toastId = 2, timeouts = [], nextHandle = 1,
       trace = [TimerSet 0, TimerCancelled 0, OnDismiss 1 False] \<rparr>"
    by code_simp
  from clear_cancels_then_dismisses_all [OF r] e r show ?thesis by simp
qed

lemma clearTimeout_fields [simp]:
  "toasts (clearTimeout h s) = toasts s"
  "queue_cancel (clearTimeout h s) = queue_cancel s"
  by (simp_all add: clearTimeout_def)

lemma clear_again: "queue_cancel s = None \<Longrightarrow> toasts s = [] \<Longrightarrow> queue_toasts s = [] \<Longrightarrow>
    \<not> queue_isRunning s \<Longrightarrow> clear s = s"
  by (simp add: clear_def clearCalls_def List.map_filter_def)

text \<open>
  Claim C7, as stated, fails inside a batch: the first \<open>clear\<close> only queues
  the empty list, so the second \<open>clear\<close> still reads the visible record in
  \<open>this.state.toasts\<close> and calls its \<open>onDismiss\<close> again. With A visible and B
  pending, one \<open>clear\<close> calls A's callback once, two in one batch call it
  twice.
\<close>

theorem clear_twice_in_batch_counterexample:
  "(case runB [Do (Show propsA None), Flush, Do (Show propsB None), Flush, Do Clear, Flush]
          (settled (initial (Some 1))) of
      Inl _ \<Rightarrow> False
    | Inr b \<Rightarrow> trace (inst b) = [TimerSet 0, TimerCancelled 0, OnDismiss 1 False]) \<and>
   (case runB [Do (Show propsA None), Flush, Do (Show propsB None), Flush, Do Clear, Do Clear, Flush]
          (settled (initial (Some 1))) of
      Inl _ \<Rightarrow> False
    | Inr b \<Rightarrow> trace (inst b)
        = [TimerSet 0, TimerCancelled 0, OnDismiss 1 False, OnDismiss 1 False])"
  by code_simp

text \<open>
  Claim C7, amended. From every controller state (whatever updates are still
  queued), two calls of \<open>clear\<close> in succession, the state update of the first
  applied before the second starts, raise no error; the second call leaves
  the controller exactly as the first left it and adds nothing to the trace,
  so it invokes no dismissal callback; both collections are empty.
\<close>

theorem clear_idempotent:
  "runB [Do Clear, Flush] b = Inr (flush (clearB b)) \<and>
   runB [Do Clear, Flush] (flush (clearB b)) = Inr (flush (clearB b)) \<and>
   trace (inst (clearB (flush (clearB b)))) = trace (inst (flush (clearB b))) \<and>
   toasts (inst (flush (clearB b))) = [] \<and> queue_toasts (inst (flush (clearB b))) = []"
proof -
  let ?b1 = "flush (clearB b)"
  let ?s1 = "inst ?b1"
  have t: "toasts ?s1 = []" by simp
  have q: "queue_cancel ?s1 = None" "queue_toasts ?s1 = []" "\<not> queue_isRunning ?s1"
    by simp_all
  from q t have c: "clear ?s1 = ?s1" by (intro clear_again)
  have "flush (clearB ?b1) = flush (clearB (settled ?s1))" by (simp only: settled_flush)
  also have "\<dots> = settled (clear ?s1)" by (rule flush_clearB_settled)
  also have "\<dots> = ?b1" by (simp only: c settled_flush)
  finally have again: "flush (clearB ?b1) = ?b1" .
  have r1: "runB [Do Clear, Flush] b = Inr ?b1" by (rule runB_clear_flush)
  have "runB [Do Clear, Flush] ?b1 = Inr (flush (clearB ?b1))" by (rule runB_clear_flush)
  then have r2: "runB [Do Clear, Flush] ?b1 = Inr ?b1" by (simp only: again)
  have r3: "trace (inst (clearB ?b1)) = trace ?s1"
    using t q by (simp add: clearB_def Let_def clearCalls_def List.map_filter_def)
  from r1 r2 r3 t q(2) show ?thesis by (intro conjI)
qed

theorem clear_idempotent_witness:
  "runB [Do Clear, Flush] (settled example_full) = Inr (flush (clearB (settled example_full))) \<and>
   runB [Do Clear, Flush] (flush (clearB (settled example_full)))
     = Inr (flush (clearB (settled example_full))) \<and>
   trace (inst (flush (clearB (settled example_full))))
     = [TimerSet 0, TimerCancelled 0, OnDismiss 1 False] \<and>
   trace (inst (clearB (flush (clearB (settled example_full)))))
     = [TimerSet 0, TimerCancelled 0, OnDismiss 1 False]"
proof -
  have e: "trace (inst (flush (clearB (settled example_full))))
      = [TimerSet 0, TimerCancelled 0, OnDismiss 1 False]"
    by code_simp
  from clear_idempotent [of "settled example_full"] e show ?thesis by (simp only:) 
qed

lemma replaceKey_others:
  "key opt = k \<Longrightarrow> filter (\<lambda>t. key t \<noteq> k) (replaceKey k opt ts) = filter (\<lambda>t. key t \<noteq> k) ts"
  by (induction ts) (auto simp: replaceKey_def)

section \<open>Updating an existing toast\<close>

text \<open>
  Claim C10. When \<open>show\<close> is called with a key that a pending or a visible
  record carries, it returns that key, the trace is unchanged (no dismissal
  callback is called, no timer is set), the keys of both collections are the
  same sequences as before, the records with other keys are untouched, and the
  scheduler is as it was. No condition on \<open>maxToasts\<close> is needed: the capacity
  check is not reached.
\<close>

theorem show_existing_key_removes_nothing:
  assumes "k \<in> set (map key (queue_toasts s @ toasts s))"
  shows "\<exists>s'. show p (Some k) s = Inr (k, s') \<and> trace s' = trace s \<and>
     map key (queue_toasts s') = map key (queue_toasts s) \<and>
     map key (toasts s') = map key (toasts s) \<and>
     filter (\<lambda>t. key t \<noteq> k) (queue_toasts s') = filter (\<lambda>t. key t \<noteq> k) (queue_toasts s) \<and>
     filter (\<lambda>t. key t \<noteq> k) (toasts s') = filter (\<lambda>t. key t \<noteq> k) (toasts s) \<and>
     timeouts s' = timeouts s \<and> queue_isRunning s' = queue_isRunning s"
proof (cases "list_ex (\<lambda>t. key t = k) (queue_toasts s)")
  case True
  then show ?thesis by (simp add: show_pending replaceKey_others)
next
  case False
  with assms have "list_ex (\<lambda>t. key t = k) (toasts s)" by (auto simp: list_ex_key)
  with False show ?thesis by (simp add: show_visible replaceKey_others)
qed

theorem show_existing_key_removes_nothing_witness:
  "atLimit example_full \<and> ''toast-0'' \<in> set (map key (queue_toasts example_full @ toasts example_full)) \<and>
   show propsY (Some ''toast-0'') example_full
     = Inr (''toast-0'', example_full\<lparr> toasts := [withKey propsY ''toast-0''] \<rparr>)"
proof -
  have a: "''toast-0'' \<in> set (map key (queue_toasts example_full @ toasts example_full))"
    by code_simp
  have l: "atLimit example_full" by code_simp
  have e: "show propsY (Some ''toast-0'') example_full
     = Inr (''toast-0'', example_full\<lparr> toasts := [withKey propsY ''toast-0''] \<rparr>)"
    by code_simp
  from show_existing_key_removes_nothing [OF a, of propsY] e a l show ?thesis by simp
qed

section \<open>Uniqueness of identifiers\<close>

text \<open>
  Claim C9, as stated, fails: a caller-supplied key that equals an identifier
  the counter issues later is not recognised as existing when the keyless call
  comes (\<open>maybeUpdateExistingToast\<close> returns at once for a missing key), so the
  identifier \<open>toast-0\<close> ends up in both collections, and after the timer fires
  twice in the visible one.
\<close>

theorem identifiers_not_unique_counterexample:
  "(case run [Show propsA (Some ''toast-0''), Show propsB None] (initial None) of
      Inl _ \<Rightarrow> False
    | Inr s \<Rightarrow> map key (queue_toasts s) = [''toast-0''] \<and> map key (toasts s) = [''toast-0'']) \<and>
   (case run [Show propsA (Some ''toast-0''), Show propsB None, Fire 0] (initial None) of
      Inl _ \<Rightarrow> False
    | Inr s \<Rightarrow> map key (toasts s) = [''toast-0'', ''toast-0''])"
  by code_simp

text \<open>
  Two more ways to a repeated identifier, which the amended claim excludes:
  two calls of \<open>show\<close> with the same new key inside one batch (the second
  does not find the key in the stale \<open>this.state.toasts\<close>), and a counter
  that has stopped advancing.
\<close>

lemma batched_shows_duplicate_key:
  "(case runB [Do (Show propsA (Some ''k'')), Do (Show propsB (Some ''k'')), Flush,
               Do (Fire 0), Flush] (settled (initial None)) of
      Inl _ \<Rightarrow> False
    | Inr b \<Rightarrow> map key (toasts (inst b)) = [''k'', ''k''])"
  by code_simp

lemma counter_stops: "incr 9007199254740992 = 9007199254740992"
  by (simp add: incr_def)

text \<open>
  Claim C9, amended. For every sequence of \<open>show\<close>, \<open>dismiss\<close>, \<open>clear\<close>
  and timer-firing operations in which the state updates of each operation
  are applied before the next one starts, no call of \<open>show\<close> passes as its
  key an auto-generated identifier that the counter has not issued yet
  (\<open>toast-n\<close> with \<open>n\<close> at or above the current counter), and every call of
  \<open>show\<close> without a key finds the counter below \<open>2^53\<close>, the run ends without
  an error in a state where every identifier occurs at most once in the
  pending queue and the visible collection taken together.
\<close>

theorem identifiers_unique:
  assumes "keys_ok es (initial mx)"
  shows "\<exists>s. runFlushed es (initial mx) = Inr s \<and> distinct (map key (queue_toasts s @ toasts s))"
proof -
  have "uniq (initial mx)" by (simp add: uniq_def keys_def initial_def)
  from this assms have "\<exists>s. runFlushed es (initial mx) = Inr s \<and> uniq s"
    by (rule runFlushed_uniq)
  then obtain s where s: "runFlushed es (initial mx) = Inr s" and "uniq s" by (elim exE conjE)
  from \<open>uniq s\<close> have "distinct (map key (queue_toasts s @ toasts s))"
    by (simp add: uniq_def keys_def)
  with s show ?thesis by (intro exI conjI)
qed

theorem identifiers_unique_witness:
  "keys_ok [Show propsA None, Show propsB (Some ''k1''), Show propsY (Some ''toast-0''),
            Show propsB None, Fire 0, Dismiss ''k1'' False, Fire 1] (initial None) \<and>
   (case runFlushed [Show propsA None, Show propsB (Some ''k1''), Show propsY (Some ''toast-0''),
            Show propsB None, Fire 0, Dismiss ''k1'' False, Fire 1] (initial None) of
      Inl _ \<Rightarrow> False
    | Inr s \<Rightarrow> distinct (map key (queue_toasts s @ toasts s)))"
proof -
  have k: "keys_ok [Show propsA None, Show propsB (Some ''k1''), Show propsY (Some ''toast-0''),
            Show propsB None, Fire 0, Dismiss ''k1'' False, Fire 1] (initial None)"
    by code_simp
  from identifiers_unique [OF k] k show ?thesis by auto
qed






section \<open>Updating a pending toast\<close>




section \<open>Dismissing a pending toast\<close>

text \<open>
  Claim C4: \<open>dismiss(identifier)\<close> removes the record from whichever
  collection holds it, so a record dismissed while pending is never displayed.
  The code does not do this: \<open>dismiss\<close> filters \<open>state.toasts\<close> and never
  looks at \<open>queue.toasts\<close>, unlike \<open>maybeUpdateExistingToast\<close> and \<open>clear\<close>,
  which handle both collections. After \<open>show(A)\<close> and \<open>show(B)\<close> the
  record \<open>toast-1\<close> is pending; \<open>dismiss("toast-1")\<close> leaves it in the queue,
  and the next firing of the timer displays it.
\<close>

theorem dismiss_leaves_pending_toast:
  "(case run [Show propsA None, Show propsB None] (initial None) of
      Inl _ \<Rightarrow> False
    | Inr s \<Rightarrow> map key (queue_toasts s) = [''toast-1''] \<and>
        map key (queue_toasts (dismiss ''toast-1'' False s)) = [''toast-1'']) \<and>
   (case run [Show propsA None, Show propsB None, Dismiss ''toast-1'' False, Fire 0] (initial None) of
      Inl _ \<Rightarrow> False
    | Inr s \<Rightarrow> map key (getToasts s) = [''toast-1'', ''toast-0''])"
  by code_simp

section \<open>Order of release\<close>

text \<open>
  Claim C8. A new toast shown while the scheduler is running is appended at
  the end of the pending queue. From a state a run can reach, firing the timer
  \<open>i\<close> times releases the first \<open>i\<close> pending records and leaves the rest of
  the queue in order; the next firing releases the record at position \<open>i\<close>
  and puts it at the head of the visible collection, in front of what was
  visible before. So \<open>getToasts\<close> lists the released records newest first,
  followed by the older visible ones (less what eviction removed; with no
  \<open>maxToasts\<close> it is exactly the reversed released prefix followed by the old
  visible list).
\<close>

theorem released_in_submission_order:
  assumes reach: "run es (initial mx) = Inr s" and i: "i < length (queue_toasts s)"
  shows "(isNew k s \<and> queue_isRunning s \<longrightarrow>
       show p k s = Inr (resolve k s,
         (bump k s)\<lparr> queue_toasts := queue_toasts s @ [withKey p (resolve k s)] \<rparr>)) \<and>
     (\<exists>s0 s1 rest. fireN i s = Inr s0 \<and> fireN (Suc i) s = Inr s1 \<and>
        queue_toasts s0 = drop i (queue_toasts s) \<and>
        queue_toasts s1 = drop (Suc i) (queue_toasts s) \<and>
        getToasts s1 = queue_toasts s ! i # rest \<and>
        subseq rest (getToasts s0) \<and>
        subseq (getToasts s0) (rev (take i (queue_toasts s)) @ getToasts s) \<and>
        (\<not> truthy (maxToasts s) \<longrightarrow>
           getToasts s1 = rev (take (Suc i) (queue_toasts s)) @ getToasts s))"
proof -
  from reach have ok: "sched_ok s" by (rule run_sched_ok)
  from ok i obtain s0 s1 rest where r: "fireN i s = Inr s0" "fireN (Suc i) s = Inr s1"
    "queue_toasts s0 = drop i (queue_toasts s)"
    "queue_toasts s1 = drop (Suc i) (queue_toasts s)"
    "toasts s1 = queue_toasts s ! i # rest" "subseq rest (toasts s0)"
    "subseq (toasts s0) (rev (take i (queue_toasts s)) @ toasts s)"
    by (rule fireN_release_nth)
  from i have "Suc i \<le> length (queue_toasts s)" by simp
  from fireN_release [OF ok this] r(2)
  have u: "\<not> truthy (maxToasts s) \<longrightarrow>
      toasts s1 = rev (take (Suc i) (queue_toasts s)) @ toasts s"
    by (auto simp del: fireN.simps)
  have "fireN i s = Inr s0 \<and> fireN (Suc i) s = Inr s1 \<and>
        queue_toasts s0 = drop i (queue_toasts s) \<and>
        queue_toasts s1 = drop (Suc i) (queue_toasts s) \<and>
        getToasts s1 = queue_toasts s ! i # rest \<and>
        subseq rest (getToasts s0) \<and>
        subseq (getToasts s0) (rev (take i (queue_toasts s)) @ getToasts s) \<and>
        (\<not> truthy (maxToasts s) \<longrightarrow>
           getToasts s1 = rev (take (Suc i) (queue_toasts s)) @ getToasts s)"
    unfolding getToasts_def using r u by (intro conjI)
  then have "\<exists>s0 s1 rest. fireN i s = Inr s0 \<and> fireN (Suc i) s = Inr s1 \<and>
        queue_toasts s0 = drop i (queue_toasts s) \<and>
        queue_toasts s1 = drop (Suc i) (queue_toasts s) \<and>
        getToasts s1 = queue_toasts s ! i # rest \<and>
        subseq rest (getToasts s0) \<and>
        subseq (getToasts s0) (rev (take i (queue_toasts s)) @ getToasts s) \<and>
        (\<not> truthy (maxToasts s) \<longrightarrow>
           getToasts s1 = rev (take (Suc i) (queue_toasts s)) @ getToasts s)"
    by (intro exI)
  moreover have "isNew k s \<and> queue_isRunning s \<longrightarrow>
       show p k s = Inr (resolve k s,
         (bump k s)\<lparr> queue_toasts := queue_toasts s @ [withKey p (resolve k s)] \<rparr>)"
    by (simp add: show_new_running)
  ultimately show ?thesis by (intro conjI)
qed

theorem released_in_submission_order_witness:
  "run [Show propsA None, Show propsB None, Show propsY None] (initial None)
     = Inr example_two_queued \<and>
   1 < length (queue_toasts example_two_queued) \<and>
   isNew None example_two_queued \<and> queue_isRunning example_two_queued \<and>
   \<not> truthy (maxToasts example_two_queued) \<and>
   show propsA None example_two_queued
     = Inr (''toast-3'', example_two_queued\<lparr> toastId := 4,
          queue_toasts := [withKey propsB ''toast-1'', withKey propsY ''toast-2'',
                           withKey propsA ''toast-3''] \<rparr>) \<and>
   (case fireN (Suc 1) example_two_queued of
      Inl _ \<Rightarrow> False
    | Inr s1 \<Rightarrow> getToasts s1 = [withKey propsY ''toast-2'', withKey propsB ''toast-1'',
                                 withKey propsA ''toast-0''] \<and>
               queue_toasts s1 = [])"
proof -
  have r: "run [Show propsA None, Show propsB None, Show propsY None] (initial None)
     = Inr example_two_queued" by code_simp
  have i: "1 < length (queue_toasts example_two_queued)" by code_simp
  have n: "isNew None example_two_queued" by code_simp
  have q: "queue_isRunning example_two_queued" by code_simp
  have t: "\<not> truthy (maxToasts example_two_queued)" by code_simp
  have e1: "(resolve None example_two_queued,
         (bump None example_two_queued)\<lparr> queue_toasts := queue_toasts example_two_queued
            @ [withKey propsA (resolve None example_two_queued)] \<rparr>)
     = (''toast-3'', example_two_queued\<lparr> toastId := 4,
          queue_toasts := [withKey propsB ''toast-1'', withKey propsY ''toast-2'',
                           withKey propsA ''toast-3''] \<rparr>)"
    by code_simp
  have e2: "rev (take (Suc 1) (queue_toasts example_two_queued)) @ getToasts example_two_queued
     = [withKey propsY ''toast-2'', withKey propsB ''toast-1'', withKey propsA ''toast-0'']"
    by code_simp
  have e3: "drop (Suc 1) (queue_toasts example_two_queued) = []" by code_simp
  from released_in_submission_order [OF r i, of None propsA] n q t
  have "show propsA None example_two_queued
     = Inr (''toast-3'', example_two_queued\<lparr> toastId := 4,
          queue_toasts := [withKey propsB ''toast-1'', withKey propsY ''toast-2'',
                           withKey propsA ''toast-3''] \<rparr>)"
    and "\<exists>s1. fireN (Suc 1) example_two_queued = Inr s1 \<and> queue_toasts s1 = [] \<and>
       getToasts s1 = [withKey propsY ''toast-2'', withKey propsB ''toast-1'',
                                 withKey propsA ''toast-0'']"
    unfolding e1 e2 e3 by blast+
  with r i n q t show ?thesis by (auto simp del: fireN.simps)
qed

end
